theory Spec2Isabelle
  imports
    Complex_Main
    "HOL-Library.Char_ord"
    "HOL-Library.Log_Nat"
    "HOL-Library.List_Lexorder"
    "HOL-Library.Product_Lexorder"
begin

section \<open>JavaScript numbers\<close>

text \<open>
  A JavaScript \<^verbatim>\<open>number\<close> is an IEEE 754 double: a finite value, one of the two
  infinities, or \<^verbatim>\<open>NaN\<close>. A finite value is given by the rational it stands for (the
  model has one zero: the program never divides and never tests the sign of a zero).
  Every arithmetic operation computes the exact result and rounds it to the nearest
  double, ties to the even significand: 53 bits of significand, exponents from -1022
  (with the subnormals below) to 1023, and a result that rounds to \<open>2^1024\<close> or beyond
  becomes an infinity.
\<close>

datatype number = Fin rat | PosInf | NegInf | NaN

definition pow2 :: "int \<Rightarrow> rat" where
  "pow2 k = (if 0 \<le> k then 2 ^ nat k else 1 / 2 ^ nat (- k))"

text \<open>The exponent \<open>e\<close> with \<open>2^e \<le> |x| < 2^(e+1)\<close>, for \<open>x \<noteq> 0\<close>.\<close>

definition binade :: "rat \<Rightarrow> int" where
  "binade x =
     (if 1 \<le> \<bar>x\<bar> then bitlen \<lfloor>\<bar>x\<bar>\<rfloor> - 1 else - bitlen (\<lceil>1 / \<bar>x\<bar>\<rceil> - 1))"

definition round_half_even :: "rat \<Rightarrow> int" where
  "round_half_even t =
     (let f = \<lfloor>t\<rfloor>; r = t - of_int f
      in if r < 1 / 2 then f else if 1 / 2 < r then f + 1 else if even f then f else f + 1)"

definition round_double :: "rat \<Rightarrow> number" where
  "round_double x =
     (if x = 0 then Fin 0
      else
        (let e = max (binade x) (- 1022);
             q = pow2 (e - 52);
             y = of_int (round_half_even (x / q)) * q
         in if pow2 1024 \<le> y then PosInf else if y \<le> - pow2 1024 then NegInf else Fin y))"

fun js_neg :: "number \<Rightarrow> number" where
  "js_neg (Fin a) = Fin (- a)"
| "js_neg PosInf = NegInf"
| "js_neg NegInf = PosInf"
| "js_neg NaN = NaN"

fun js_add :: "number \<Rightarrow> number \<Rightarrow> number" where
  "js_add NaN y = NaN"
| "js_add x NaN = NaN"
| "js_add (Fin a) (Fin b) = round_double (a + b)"
| "js_add PosInf NegInf = NaN"
| "js_add NegInf PosInf = NaN"
| "js_add PosInf y = PosInf"
| "js_add NegInf y = NegInf"
| "js_add (Fin a) y = y"

definition js_sub :: "number \<Rightarrow> number \<Rightarrow> number" where
  "js_sub x y = js_add x (js_neg y)"

fun js_mul :: "number \<Rightarrow> number \<Rightarrow> number" where
  "js_mul NaN y = NaN"
| "js_mul x NaN = NaN"
| "js_mul (Fin a) (Fin b) = round_double (a * b)"
| "js_mul (Fin a) PosInf = (if a = 0 then NaN else if 0 < a then PosInf else NegInf)"
| "js_mul (Fin a) NegInf = (if a = 0 then NaN else if 0 < a then NegInf else PosInf)"
| "js_mul PosInf (Fin b) = (if b = 0 then NaN else if 0 < b then PosInf else NegInf)"
| "js_mul NegInf (Fin b) = (if b = 0 then NaN else if 0 < b then NegInf else PosInf)"
| "js_mul PosInf PosInf = PosInf"
| "js_mul NegInf NegInf = PosInf"
| "js_mul PosInf NegInf = NegInf"
| "js_mul NegInf PosInf = NegInf"

text \<open>\<^verbatim>\<open>x < y\<close> and \<^verbatim>\<open>x <= y\<close>: false as soon as one side is \<^verbatim>\<open>NaN\<close>.\<close>

fun js_less :: "number \<Rightarrow> number \<Rightarrow> bool" where
  "js_less NaN y = False"
| "js_less x NaN = False"
| "js_less (Fin a) (Fin b) = (a < b)"
| "js_less x NegInf = False"
| "js_less PosInf y = False"
| "js_less x PosInf = True"
| "js_less NegInf y = True"

fun js_le :: "number \<Rightarrow> number \<Rightarrow> bool" where
  "js_le NaN y = False"
| "js_le x NaN = False"
| "js_le (Fin a) (Fin b) = (a \<le> b)"
| "js_le NegInf y = True"
| "js_le x PosInf = True"
| "js_le x NegInf = False"
| "js_le PosInf y = False"

definition isNaN :: "number \<Rightarrow> bool" where
  "isNaN x = (x = NaN)"

section \<open>Data model\<close>

text \<open>
  The interfaces \<^verbatim>\<open>User\<close>, \<^verbatim>\<open>TwoDBet\<close> and \<^verbatim>\<open>TwoDResult\<close> of the source. A string is the
  list of the bytes of its UTF-8 encoding. Field names that would clash with another
  record or with a HOL constant carry the prefix \<open>b_\<close> (bet) or \<open>r_\<close> (result).

  Line numbers are those of the program file that has the five bet types (736
  lines). \<^verbatim>\<open>main.ts\<close> holds an earlier version of the same program: its
  \<^verbatim>\<open>process2DWinnings\<close>, \<^verbatim>\<open>getRecentResults\<close> and top-up handler are the same, its bet
  handler takes direct bets only.
\<close>

datatype session = Morning | Evening

datatype status = Pending | Win | Lose

record user =
  username :: string
  passwordHash :: string
  balance :: number
  isAdmin :: bool
  createdAt :: int

record twoDBet =
  b_id :: string
  b_username :: string
  b_number :: string
  b_amount :: number
  b_date :: string
  b_session :: session
  b_status :: status
  b_timestamp :: int

record twoDResult =
  r_date :: string
  r_time :: string
  r_twod :: string
  r_session :: session

text \<open>The outcomes a handler reports, named after the error taxonomy of the specification.
  \<open>Unauthorized\<close>: no user for the session (401/403). \<open>ValidationError\<close>: the 400 answers
  "Invalid amount", "Invalid input for ...", "Unknown bet type" and the top-up's
  "Invalid user or amount". \<open>MarketClosed\<close>: "Market Closed for the day".
  \<open>InsufficientFunds\<close>: "Insufficient Balance". \<open>ConcurrencyConflict\<close>: "Transaction
  conflict" (a failed \<^verbatim>\<open>commit\<close>).\<close>

datatype error =
  Unauthorized | ValidationError | MarketClosed | InsufficientFunds | ConcurrencyConflict

section \<open>The key-value store (Deno KV)\<close>

text \<open>
  Deno KV keeps its entries ordered by key; \<^verbatim>\<open>kv.list\<close> enumerates a prefix in that order
  (string key parts compare bytewise, keys compare part by part). A table is an
  association list kept strictly sorted by key. The three prefixes the program uses
  are three tables: \<^verbatim>\<open>["users", name]\<close>, \<^verbatim>\<open>["2d_bets", date, name, id]\<close> and
  \<^verbatim>\<open>["results", date, session]\<close>. Every committed write gets a new versionstamp;
  the program only ever checks the versionstamp of user entries, so only those
  carry one in the model.
\<close>

fun kv_put :: "'k::linorder \<Rightarrow> 'v \<Rightarrow> ('k \<times> 'v) list \<Rightarrow> ('k \<times> 'v) list" where
  "kv_put k v [] = [(k, v)]"
| "kv_put k v ((k', v') # xs) =
     (if k = k' then (k, v) # xs
      else if k < k' then (k, v) # (k', v') # xs
      else (k', v') # kv_put k v xs)"

definition kv_ok :: "('k::linorder \<times> 'v) list \<Rightarrow> bool" where
  "kv_ok xs = sorted_wrt (<) (map fst xs)"

type_synonym bet_key = "string \<times> string \<times> string"

type_synonym result_key = "string \<times> string"

record kv_store =
  users :: "(string \<times> (user \<times> nat)) list"
  bets :: "(bet_key \<times> twoDBet) list"
  results :: "(result_key \<times> twoDResult) list"
  version :: nat

definition empty_store :: kv_store where
  "empty_store = \<lparr>users = [], bets = [], results = [], version = 0\<rparr>"

text \<open>\<^verbatim>\<open>kv.get(["users", name])\<close>: the entry's value and versionstamp, both \<^verbatim>\<open>null\<close>
  (\<open>None\<close>) when the key is absent.\<close>

definition kv_get_user :: "kv_store \<Rightarrow> string \<Rightarrow> user option \<times> nat option" where
  "kv_get_user s name =
     (case map_of (users s) name of
        None \<Rightarrow> (None, None)
      | Some (u, v) \<Rightarrow> (Some u, Some v))"

definition getUser :: "kv_store \<Rightarrow> string \<Rightarrow> user option" where
  "getUser s name = fst (kv_get_user s name)"

text \<open>An atomic operation: \<^verbatim>\<open>kv.atomic().check(e)...set(k, v)...commit()\<close>. The checks
  compare versionstamps of user entries; when all hold, every mutation is applied in
  one step under one new versionstamp and \<^verbatim>\<open>res.ok\<close> is true; otherwise nothing is
  written and \<^verbatim>\<open>res.ok\<close> is false.\<close>

datatype mutation = SetUser string user | SetBet bet_key twoDBet

fun apply_mutation :: "nat \<Rightarrow> kv_store \<Rightarrow> mutation \<Rightarrow> kv_store" where
  "apply_mutation v s (SetUser k u) = s\<lparr>users := kv_put k (u, v) (users s)\<rparr>"
| "apply_mutation v s (SetBet k b) = s\<lparr>bets := kv_put k b (bets s)\<rparr>"

definition check_ok :: "kv_store \<Rightarrow> string \<times> nat option \<Rightarrow> bool" where
  "check_ok s c = (snd (kv_get_user s (fst c)) = snd c)"

definition commit ::
  "(string \<times> nat option) list \<Rightarrow> mutation list \<Rightarrow> kv_store \<Rightarrow> bool \<times> kv_store" where
  "commit checks muts s =
     (if list_all (check_ok s) checks
      then (True, (foldl (apply_mutation (Suc (version s))) s muts)\<lparr>version := Suc (version s)\<rparr>)
      else (False, s))"

text \<open>\<^verbatim>\<open>kv.set(key, value)\<close> is the atomic operation with one mutation and no check.\<close>

definition saveUser :: "user \<Rightarrow> kv_store \<Rightarrow> kv_store" where
  "saveUser u s = snd (commit [] [SetUser (username u) u] s)"

definition kv_set_bet :: "bet_key \<Rightarrow> twoDBet \<Rightarrow> kv_store \<Rightarrow> kv_store" where
  "kv_set_bet k b s = snd (commit [] [SetBet k b] s)"

section \<open>Draw results\<close>

definition session_name :: "session \<Rightarrow> string" where
  "session_name x = (case x of Morning \<Rightarrow> ''Morning'' | Evening \<Rightarrow> ''Evening'')"

definition saveResult :: "string \<Rightarrow> session \<Rightarrow> string \<Rightarrow> string \<Rightarrow> kv_store \<Rightarrow> kv_store" where
  "saveResult date sess twod time s =
     (let result = \<lparr>r_date = date, r_time = time, r_twod = twod, r_session = sess\<rparr>
      in s\<lparr>results := kv_put (date, session_name sess) result (results s),
           version := Suc (version s)\<rparr>)"

text \<open>\<^verbatim>\<open>kv.list({ prefix: ["results"] }, { limit, reverse: true })\<close>: the table in
  descending key order, cut after \<open>limit\<close> entries; the loop collects the values.
  Deno KV refuses a limit that is not positive: the call throws and the function returns
  nothing (\<open>None\<close>). The program calls it with 10.\<close>

definition getRecentResults :: "nat \<Rightarrow> kv_store \<Rightarrow> twoDResult list option" where
  "getRecentResults limit s =
     (if limit = 0 then None else Some (map snd (take limit (rev (results s)))))"

section \<open>Bet expansion\<close>

text \<open>Lines 641 to 663 of the bet handler. \<^verbatim>\<open>/^\d{1}$/\<close> and \<^verbatim>\<open>/^\d{2}$/\<close> accept exactly
  one and exactly two ASCII digits. \<open>digit_str i\<close> is the template \<^verbatim>\<open>`${i}`\<close> for the
  loop counter \<open>i < 10\<close>.\<close>

definition is_digit :: "char \<Rightarrow> bool" where
  "is_digit c = (c \<in> set ''0123456789'')"

definition test_d1 :: "string \<Rightarrow> bool" where
  "test_d1 x = (case x of [a] \<Rightarrow> is_digit a | _ \<Rightarrow> False)"

definition test_d2 :: "string \<Rightarrow> bool" where
  "test_d2 x = (case x of [a, b] \<Rightarrow> is_digit a \<and> is_digit b | _ \<Rightarrow> False)"

definition digit_str :: "nat \<Rightarrow> string" where
  "digit_str i = [''0123456789'' ! i]"

definition numbersToBet :: "string \<Rightarrow> string \<Rightarrow> error + string list" where
  "numbersToBet betType number =
     (if betType = ''double'' then Inr (map (\<lambda>i. digit_str i @ digit_str i) [0..<10])
      else if betType = ''head'' then
        (if \<not> test_d1 number then Inl ValidationError
         else Inr (map (\<lambda>i. number @ digit_str i) [0..<10]))
      else if betType = ''tail'' then
        (if \<not> test_d1 number then Inl ValidationError
         else Inr (map (\<lambda>i. digit_str i @ number) [0..<10]))
      else if betType = ''r'' then
        (if \<not> test_d2 number then Inl ValidationError
         else (let reversed = rev number
               in if reversed \<noteq> number then Inr [number, reversed] else Inr [number]))
      else if betType = ''direct'' then
        (if \<not> test_d2 number then Inl ValidationError else Inr [number])
      else Inl ValidationError)"

text \<open>\<^verbatim>\<open>String.prototype.trim\<close> removes the white space and line terminator
  characters of ECMAScript from both ends. \<open>white_space\<close> lists their UTF-8 encodings:
  U+0009 to U+000D, U+0020, U+00A0, U+1680, U+2000 to U+200A, U+2028, U+2029, U+202F,
  U+205F, U+3000 and U+FEFF. \<open>strip_ws\<close> removes one of them from the front of a
  string, \<open>ltrim\<close> all of them: each step removes at least one byte, so as many steps
  as the string has bytes are enough.\<close>

definition white_space :: "string list" where
  "white_space =
     [[CHR 0x09], [CHR 0x0A], [CHR 0x0B], [CHR 0x0C], [CHR 0x0D], [CHR 0x20],
      [CHR 0xC2, CHR 0xA0], [CHR 0xE1, CHR 0x9A, CHR 0x80],
      [CHR 0xE2, CHR 0x80, CHR 0x80], [CHR 0xE2, CHR 0x80, CHR 0x81],
      [CHR 0xE2, CHR 0x80, CHR 0x82], [CHR 0xE2, CHR 0x80, CHR 0x83],
      [CHR 0xE2, CHR 0x80, CHR 0x84], [CHR 0xE2, CHR 0x80, CHR 0x85],
      [CHR 0xE2, CHR 0x80, CHR 0x86], [CHR 0xE2, CHR 0x80, CHR 0x87],
      [CHR 0xE2, CHR 0x80, CHR 0x88], [CHR 0xE2, CHR 0x80, CHR 0x89],
      [CHR 0xE2, CHR 0x80, CHR 0x8A], [CHR 0xE2, CHR 0x80, CHR 0xA8],
      [CHR 0xE2, CHR 0x80, CHR 0xA9], [CHR 0xE2, CHR 0x80, CHR 0xAF],
      [CHR 0xE2, CHR 0x81, CHR 0x9F], [CHR 0xE3, CHR 0x80, CHR 0x80],
      [CHR 0xEF, CHR 0xBB, CHR 0xBF]]"

fun strip_ws :: "string list \<Rightarrow> string \<Rightarrow> string option" where
  "strip_ws [] x = None"
| "strip_ws (w # ws) x =
     (if take (length w) x = w then Some (drop (length w) x) else strip_ws ws x)"

fun ltrim :: "string list \<Rightarrow> nat \<Rightarrow> string \<Rightarrow> string" where
  "ltrim ws 0 x = x"
| "ltrim ws (Suc n) x = (case strip_ws ws x of None \<Rightarrow> x | Some x' \<Rightarrow> ltrim ws n x')"

definition trim :: "string \<Rightarrow> string" where
  "trim x =
     (let y = ltrim white_space (length x) x
      in rev (ltrim (map rev white_space) (length y) (rev y)))"

section \<open>Placing bets: \<^verbatim>\<open>app.post("/api/2d/bet")\<close>\<close>

text \<open>
  What the handler takes from its environment: the hour of day and the date in the
  Asia/Yangon time zone, and the successive values of \<^verbatim>\<open>crypto.randomUUID()\<close> and
  \<^verbatim>\<open>Date.now()\<close> (the \<open>i\<close>-th call of the request returns \<open>randomUUID e i\<close>, \<open>now e i\<close>).
\<close>

record env =
  hour :: nat
  today :: string
  randomUUID :: "nat \<Rightarrow> string"
  now :: "nat \<Rightarrow> int"

text \<open>Lines 634 to 637: the session open at the given hour, if any.\<close>

definition resolve_session :: "nat \<Rightarrow> session option" where
  "resolve_session h = (if h < 12 then Some Morning else if h < 16 then Some Evening else None)"

text \<open>Lines 681 to 693: one record per expanded number, each with its own call of
  \<^verbatim>\<open>crypto.randomUUID()\<close> and of \<^verbatim>\<open>Date.now()\<close>, written by its own \<^verbatim>\<open>kv.set\<close>.\<close>

fun save_bets ::
  "env \<Rightarrow> user \<Rightarrow> number \<Rightarrow> session \<Rightarrow> nat \<Rightarrow> string list \<Rightarrow> kv_store \<Rightarrow> kv_store" where
  "save_bets e u amount sess i [] s = s"
| "save_bets e u amount sess i (num # nums) s =
     (let bet = \<lparr>b_id = randomUUID e i, b_username = username u, b_number = num,
                 b_amount = amount, b_date = today e, b_session = sess,
                 b_status = Pending, b_timestamp = now e i\<rparr>
      in save_bets e u amount sess (Suc i) nums
           (kv_set_bet (today e, username u, b_id bet) bet s))"

text \<open>
  The handler awaits the store several times, and other request handlers run while it
  waits. \<open>fa\<close> is what the other writers do to the store between the handler's first
  read of the user (\<^verbatim>\<open>getSessionUser\<close>) and its \<^verbatim>\<open>kv.get\<close> of line 671; \<open>fb\<close> is what they
  do between that \<^verbatim>\<open>kv.get\<close> and the \<^verbatim>\<open>commit\<close>. The \<^verbatim>\<open>check\<close> is made against the entry
  of the second read, the balance written is computed from the first.
  \<open>owner\<close> is the user name of the session; \<open>amount\<close> is the number that
  \<^verbatim>\<open>Number(rawAmount)\<close> yields, which can be any double, an infinity or \<^verbatim>\<open>NaN\<close>.
  On success the handler answers the number of bets, the total cost and the new
  balance.
\<close>

definition api_2d_bet_conc ::
  "(kv_store \<Rightarrow> kv_store) \<Rightarrow> (kv_store \<Rightarrow> kv_store) \<Rightarrow> env \<Rightarrow> string \<Rightarrow> string \<Rightarrow>
   number \<Rightarrow> string \<Rightarrow> kv_store \<Rightarrow> (error + nat \<times> number \<times> number) \<times> kv_store" where
  "api_2d_bet_conc fa fb e owner rawNumber amount betType s =
     (case getUser s owner of
        None \<Rightarrow> (Inl Unauthorized, s)
      | Some u \<Rightarrow>
         if isNaN amount \<or> js_less amount (Fin 100) then (Inl ValidationError, s)
         else
           (case resolve_session (hour e) of
              None \<Rightarrow> (Inl MarketClosed, s)
            | Some sess \<Rightarrow>
               (case numbersToBet betType (trim rawNumber) of
                  Inl err \<Rightarrow> (Inl err, s)
                | Inr numbers \<Rightarrow>
                   (let totalCost = js_mul (Fin (of_nat (length numbers))) amount
                    in if js_less (balance u) totalCost then (Inl InsufficientFunds, s)
                       else
                         (let s1 = fa s;
                              entry = kv_get_user s1 (username u);
                              s2 = fb s1;
                              res = commit [(username u, snd entry)]
                                      [SetUser (username u)
                                         (u\<lparr>balance := js_sub (balance u) totalCost\<rparr>)] s2
                          in if \<not> fst res then (Inl ConcurrencyConflict, snd res)
                             else
                               (let s3 = save_bets e u amount sess 0 numbers (snd res);
                                    newBalance =
                                      (case getUser s3 (username u) of
                                         Some updatedUser \<Rightarrow> balance updatedUser
                                       | None \<Rightarrow> js_sub (balance u) totalCost)
                                in (Inr (length numbers, totalCost, newBalance), s3)))))))"

text \<open>The handler run with no other writer in between.\<close>

definition api_2d_bet ::
  "env \<Rightarrow> string \<Rightarrow> string \<Rightarrow> number \<Rightarrow> string \<Rightarrow> kv_store \<Rightarrow>
   (error + nat \<times> number \<times> number) \<times> kv_store" where
  "api_2d_bet = api_2d_bet_conc (\<lambda>s. s) (\<lambda>s. s)"

section \<open>Top-up: \<^verbatim>\<open>app.post("/admin/topup")\<close>\<close>

text \<open>\<open>caller\<close> is the user name of the session, \<open>amount\<close> is the number that
  \<^verbatim>\<open>Number(body.amount)\<close> yields; \<open>fa\<close>
  and \<open>fb\<close> are the other writers, as above. On success the handler answers the
  amount added.\<close>

definition admin_topup_conc ::
  "(kv_store \<Rightarrow> kv_store) \<Rightarrow> (kv_store \<Rightarrow> kv_store) \<Rightarrow> string \<Rightarrow> string \<Rightarrow> number \<Rightarrow>
   kv_store \<Rightarrow> (error + number) \<times> kv_store" where
  "admin_topup_conc fa fb caller targetUsername amount s =
     (case getUser s caller of
        None \<Rightarrow> (Inl Unauthorized, s)
      | Some u \<Rightarrow>
         if \<not> isAdmin u then (Inl Unauthorized, s)
         else
           (case getUser s targetUsername of
              None \<Rightarrow> (Inl ValidationError, s)
            | Some targetUser \<Rightarrow>
               if isNaN amount \<or> js_le amount (Fin 0) then (Inl ValidationError, s)
               else
                 (let s1 = fa s;
                      entry = kv_get_user s1 targetUsername;
                      s2 = fb s1;
                      res = commit [(targetUsername, snd entry)]
                              [SetUser targetUsername
                                 (targetUser\<lparr>balance := js_add (balance targetUser) amount\<rparr>)] s2
                  in if \<not> fst res then (Inl ConcurrencyConflict, snd res)
                     else (Inr amount, snd res))))"

definition admin_topup ::
  "string \<Rightarrow> string \<Rightarrow> number \<Rightarrow> kv_store \<Rightarrow> (error + number) \<times> kv_store" where
  "admin_topup = admin_topup_conc (\<lambda>s. s) (\<lambda>s. s)"

section \<open>Settlement: \<^verbatim>\<open>process2DWinnings\<close>\<close>

text \<open>\<^verbatim>\<open>kv.list({ prefix: ["2d_bets", today] })\<close>: the bets whose key starts with the date.\<close>

definition list_bets :: "string \<Rightarrow> kv_store \<Rightarrow> (bet_key \<times> twoDBet) list" where
  "list_bets date s = filter (\<lambda>entry. fst (fst entry) = date) (bets s)"

text \<open>
  The body of the loop, lines 66 to 82, for one entry: the new store and the new
  \<^verbatim>\<open>winCount\<close>. For a winning bet the function awaits \<^verbatim>\<open>getUser\<close> before it commits, and
  the commit carries no check: \<open>f\<close> is what other writers do to the store in between.
\<close>

definition settle_entry_conc ::
  "(kv_store \<Rightarrow> kv_store) \<Rightarrow> string \<Rightarrow> session \<Rightarrow> number \<Rightarrow> bet_key \<times> twoDBet \<Rightarrow>
   kv_store \<times> nat \<Rightarrow> kv_store \<times> nat" where
  "settle_entry_conc f winningNumber sess multiplier entry acc =
     (let s = fst acc; winCount = snd acc; bet = snd entry
      in if b_status bet = Pending \<and> b_session bet = sess then
           (let isWin = (b_number bet = winningNumber);
                newStatus = (if isWin then Win else Lose);
                atomic = [SetBet (fst entry) (bet\<lparr>b_status := newStatus\<rparr>)];
                atomic' =
                  (if isWin then
                     (case getUser s (b_username bet) of
                        Some u \<Rightarrow>
                          (let payout = js_mul (b_amount bet) multiplier
                           in atomic @ [SetUser (b_username bet)
                                          (u\<lparr>balance := js_add (balance u) payout\<rparr>)])
                      | None \<Rightarrow> atomic)
                   else atomic);
                s1 = (if isWin then f s else s);
                res = commit [] atomic' s1
            in (snd res, if fst res \<and> isWin then Suc winCount else winCount))
         else (s, winCount))"

text \<open>The loop over the entries listed; \<open>fs k\<close> is what the other writers do while the
  entry of key \<open>k\<close> is being settled.\<close>

fun sweep_conc ::
  "(bet_key \<Rightarrow> kv_store \<Rightarrow> kv_store) \<Rightarrow> string \<Rightarrow> session \<Rightarrow> number \<Rightarrow>
   (bet_key \<times> twoDBet) list \<Rightarrow> kv_store \<times> nat \<Rightarrow> kv_store \<times> nat" where
  "sweep_conc fs winningNumber sess multiplier [] acc = acc"
| "sweep_conc fs winningNumber sess multiplier (entry # entries) acc =
     sweep_conc fs winningNumber sess multiplier entries
       (settle_entry_conc (fs (fst entry)) winningNumber sess multiplier entry acc)"

text \<open>The date is not a parameter of the source function: it is \<^verbatim>\<open>new Date()\<close> in the
  Asia/Yangon time zone, here the argument \<open>date\<close>. The result is \<^verbatim>\<open>winCount\<close> and the
  store after the sweep.\<close>

definition process2DWinnings_conc ::
  "(bet_key \<Rightarrow> kv_store \<Rightarrow> kv_store) \<Rightarrow> string \<Rightarrow> string \<Rightarrow> session \<Rightarrow> number \<Rightarrow>
   kv_store \<Rightarrow> nat \<times> kv_store" where
  "process2DWinnings_conc fs date winningNumber sess multiplier s =
     (let r = sweep_conc fs winningNumber sess multiplier (list_bets date s) (s, 0)
      in (snd r, fst r))"

text \<open>The settlement run with no other writer in between.\<close>

definition settle_entry ::
  "string \<Rightarrow> session \<Rightarrow> number \<Rightarrow> bet_key \<times> twoDBet \<Rightarrow> kv_store \<times> nat \<Rightarrow> kv_store \<times> nat" where
  "settle_entry = settle_entry_conc (\<lambda>s. s)"

definition sweep ::
  "string \<Rightarrow> session \<Rightarrow> number \<Rightarrow> (bet_key \<times> twoDBet) list \<Rightarrow> kv_store \<times> nat \<Rightarrow>
   kv_store \<times> nat" where
  "sweep = sweep_conc (\<lambda>k s. s)"

definition process2DWinnings ::
  "string \<Rightarrow> string \<Rightarrow> session \<Rightarrow> number \<Rightarrow> kv_store \<Rightarrow> nat \<times> kv_store" where
  "process2DWinnings = process2DWinnings_conc (\<lambda>k s. s)"

section \<open>Vocabulary of the statements\<close>

text \<open>
  The definitions below are not code of the program; the theorems use them to say what
  the program does. \<open>spec_resolve\<close> is the outcome the specification gives to one
  bet of a settlement for (date, session): a pending bet of that date and session
  becomes a win when its number is the winning number and a loss otherwise, every
  other bet is left as it is. \<open>resolve_entry\<close> is the same without the test on the date.
  \<open>is_winner\<close> says that an entry is a pending bet of the session on the winning
  number. \<open>pay\<close> adds the payout of one bet to a balance as the program computes it,
  \<^verbatim>\<open>user.balance + bet.amount * multiplier\<close> in doubles; \<open>credited\<close> pays one user name
  its winning bets one after the other, in the order of the list.
\<close>

definition spec_resolve ::
  "string \<Rightarrow> string \<Rightarrow> session \<Rightarrow> bet_key \<times> twoDBet \<Rightarrow> bet_key \<times> twoDBet" where
  "spec_resolve date winningNumber sess entry =
     (if fst (fst entry) = date \<and> b_status (snd entry) = Pending \<and> b_session (snd entry) = sess
      then (fst entry,
            (snd entry)\<lparr>b_status := (if b_number (snd entry) = winningNumber then Win else Lose)\<rparr>)
      else entry)"

definition resolve_entry ::
  "string \<Rightarrow> session \<Rightarrow> bet_key \<times> twoDBet \<Rightarrow> bet_key \<times> twoDBet" where
  "resolve_entry winningNumber sess entry =
     (if b_status (snd entry) = Pending \<and> b_session (snd entry) = sess
      then (fst entry,
            (snd entry)\<lparr>b_status := (if b_number (snd entry) = winningNumber then Win else Lose)\<rparr>)
      else entry)"

definition is_winner :: "string \<Rightarrow> session \<Rightarrow> bet_key \<times> twoDBet \<Rightarrow> bool" where
  "is_winner winningNumber sess entry =
     (b_status (snd entry) = Pending \<and> b_session (snd entry) = sess
      \<and> b_number (snd entry) = winningNumber)"

definition pay :: "number \<Rightarrow> user \<Rightarrow> bet_key \<times> twoDBet \<Rightarrow> user" where
  "pay multiplier u entry =
     u\<lparr>balance := js_add (balance u) (js_mul (b_amount (snd entry)) multiplier)\<rparr>"

definition credited ::
  "string \<Rightarrow> session \<Rightarrow> number \<Rightarrow> string \<Rightarrow> (bet_key \<times> twoDBet) list \<Rightarrow> user \<Rightarrow> user" where
  "credited winningNumber sess multiplier name entries u =
     foldl (pay multiplier) u
       (filter (\<lambda>entry. is_winner winningNumber sess entry \<and> b_username (snd entry) = name)
          entries)"

text \<open>The tests of lines 625 and 560 passed, and the total cost of line 665.\<close>

definition valid_stake :: "number \<Rightarrow> bool" where
  "valid_stake amount = (\<not> (isNaN amount \<or> js_less amount (Fin 100)))"

definition valid_topup :: "number \<Rightarrow> bool" where
  "valid_topup amount = (\<not> (isNaN amount \<or> js_le amount (Fin 0)))"

definition totalCost :: "string list \<Rightarrow> number \<Rightarrow> number" where
  "totalCost numbers amount = js_mul (Fin (of_nat (length numbers))) amount"

text \<open>The record that the loop of lines 681 to 693 builds for the \<open>i\<close>-th number.\<close>

definition placed_bet :: "env \<Rightarrow> user \<Rightarrow> number \<Rightarrow> session \<Rightarrow> nat \<Rightarrow> string \<Rightarrow> twoDBet" where
  "placed_bet e u amount sess i num =
     \<lparr>b_id = randomUUID e i, b_username = username u, b_number = num, b_amount = amount,
      b_date = today e, b_session = sess, b_status = Pending, b_timestamp = now e i\<rparr>"

definition placed_key :: "env \<Rightarrow> user \<Rightarrow> nat \<Rightarrow> bet_key" where
  "placed_key e u i = (today e, username u, randomUUID e i)"

text \<open>
  The amounts on which the arithmetic of doubles is exact: \<open>safe\<close> holds of the
  non-negative integers up to \<open>2^53\<close>. \<open>fin\<close> reads the rational of a finite number.
  \<open>amounts_in P s\<close>: every balance and every stake of the store satisfies \<open>P\<close>.
  \<open>payouts\<close> is the exact sum of the payouts of the winning bets of one user name.
\<close>

definition is_integer :: "rat \<Rightarrow> bool" where
  "is_integer r = (of_int \<lfloor>r\<rfloor> = r)"


definition fin :: "number \<Rightarrow> rat" where
  "fin x = (case x of Fin r \<Rightarrow> r | _ \<Rightarrow> 0)"


definition payouts ::
  "string \<Rightarrow> session \<Rightarrow> rat \<Rightarrow> string \<Rightarrow> (bet_key \<times> twoDBet) list \<Rightarrow> rat" where
  "payouts winningNumber sess multiplier name entries =
     sum_list (map (\<lambda>entry. fin (b_amount (snd entry)) * multiplier)
       (filter (\<lambda>entry. is_winner winningNumber sess entry \<and> b_username (snd entry) = name)
          entries))"

text \<open>Requests to the bet handler, run one after the other for one user; the exact
  total cost of a request that passes the checks on the stake, the hour and the number
  and whose stake is an integer.\<close>

type_synonym bet_request = "env \<times> string \<times> number \<times> string"

fun run_bets ::
  "string \<Rightarrow> bet_request list \<Rightarrow> kv_store \<Rightarrow>
   (error + nat \<times> number \<times> number) list \<times> kv_store" where
  "run_bets owner [] s = ([], s)"
| "run_bets owner ((e, rawNumber, amount, betType) # reqs) s =
     (let r = api_2d_bet e owner rawNumber amount betType s;
          rest = run_bets owner reqs (snd r)
      in (fst r # fst rest, snd rest))"

definition request_cost :: "bet_request \<Rightarrow> rat option" where
  "request_cost r =
     (case r of (e, rawNumber, amount, betType) \<Rightarrow>
        (case amount of
           Fin a \<Rightarrow>
            if a < 100 \<or> \<not> is_integer a then None
            else (case resolve_session (hour e) of
                    None \<Rightarrow> None
                  | Some sess \<Rightarrow>
                     (case numbersToBet betType (trim rawNumber) of
                        Inl err \<Rightarrow> None
                      | Inr numbers \<Rightarrow> Some (of_nat (length numbers) * a)))
         | _ \<Rightarrow> None))"

definition total_cost :: "bet_request list \<Rightarrow> rat" where
  "total_cost reqs =
     sum_list (map (\<lambda>r. case request_cost r of Some c \<Rightarrow> c | None \<Rightarrow> 0) reqs)"

text \<open>Example data: a player with 10000 units, an administrator, a morning of June 2025
  whose clock advances by one millisecond between two readings.\<close>

definition demo_user :: user where
  "demo_user = \<lparr>username = ''alice'', passwordHash = ''x'', balance = Fin 10000,
                 isAdmin = False, createdAt = 0\<rparr>"

definition demo_admin :: user where
  "demo_admin = \<lparr>username = ''root'', passwordHash = ''y'', balance = Fin 0,
                  isAdmin = True, createdAt = 0\<rparr>"

definition demo_store :: kv_store where
  "demo_store = saveUser demo_user (saveUser demo_admin empty_store)"

definition demo_env :: env where
  "demo_env = \<lparr>hour = 10, today = ''2025-06-01'',
                randomUUID = (\<lambda>i. ''id-'' @ digit_str i),
                now = (\<lambda>i. 1748750400000 + int i)\<rparr>"

text \<open>The example store after the player has placed 100 units on \<^verbatim>\<open>r\<close> of 12.\<close>

definition demo_placed :: kv_store where
  "demo_placed = snd (api_2d_bet demo_env ''alice'' '' 12 '' (Fin 100) ''r'' demo_store)"

text \<open>The example store with the player's account record missing.\<close>

definition demo_orphan :: kv_store where
  "demo_orphan = demo_placed\<lparr>users := [(''root'', (demo_admin, 1))]\<rparr>"

text \<open>The double nearest to 100.4, which is a little above it, and a store in which the
  player has 1004 units; the same day after both sessions have closed.\<close>

definition stake_100_4 :: rat where
  "stake_100_4 = 3532510957718733 / 35184372088832"

definition demo_store_1004 :: kv_store where
  "demo_store_1004 = saveUser (demo_user\<lparr>balance := Fin 1004\<rparr>) (saveUser demo_admin empty_store)"

definition demo_env_closed :: env where
  "demo_env_closed = demo_env\<lparr>hour := 17\<rparr>"

text \<open>Three stakes with a fraction, each a double, whose sum is 16384:
  \<open>100 + 2^-40 + 2^-46\<close>, \<open>16184 - 2^-39\<close> and \<open>100 + 2^-40 - 2^-46\<close>; the double
  \<open>16284 - 2^-39\<close>; and a store in which the player has 16384 units.\<close>

definition stake_a :: rat where
  "stake_a = 7036874417766465 / 70368744177664"

definition stake_b :: rat where
  "stake_b = 8897248091963391 / 549755813888"

definition stake_c :: rat where
  "stake_c = 7036874417766463 / 70368744177664"

definition after_a :: rat where
  "after_a = 8952223673352191 / 549755813888"

definition demo_store_16384 :: kv_store where
  "demo_store_16384 =
     saveUser (demo_user\<lparr>balance := Fin 16384\<rparr>) (saveUser demo_admin empty_store)"

section \<open>Arithmetic of doubles on the integers up to \<open>2^53\<close>\<close>

lemma is_integer_iff: "is_integer r = (r \<in> \<int>)"
  by (auto simp: is_integer_def Ints_def)

lemma round_half_even_int: "round_half_even (of_int k) = k"
  by (simp add: round_half_even_def)

lemma pow2_pos: "0 < pow2 k"
  by (simp add: pow2_def)

lemma binade_int:
  assumes "i \<noteq> 0"
  shows "binade (of_int i) = bitlen \<bar>i\<bar> - 1"
proof -
  from assms have "1 \<le> \<bar>i\<bar>" by simp
  then have "(1::rat) \<le> \<bar>of_int i\<bar>" by (metis of_int_abs of_int_1_le_iff)
  moreover have "\<lfloor>\<bar>of_int i :: rat\<bar>\<rfloor> = \<bar>i\<bar>" by (metis of_int_abs floor_of_int)
  ultimately show ?thesis by (simp add: binade_def)
qed

lemma round_double_of_int:
  assumes "\<bar>i\<bar> \<le> 2 ^ 53"
  shows "round_double (of_int i) = Fin (of_int i)"
proof (cases "i = 0")
  case True
  then show ?thesis by (simp add: round_double_def)
next
  case False
  define n where "n = \<bar>i\<bar>"
  define e where "e = bitlen n - 1"
  from False have npos: "0 < n" by (simp add: n_def)
  from bitlen_bounds [OF npos] have lo: "2 ^ nat e \<le> n" and hi: "n < 2 ^ nat (bitlen n)"
    by (simp_all add: e_def)
  have e0: "0 \<le> e"
    using npos bitlen_nonneg [of n] bitlen_eq_zero_iff [of n] by (simp add: e_def)
  have "(2::int) ^ nat e \<le> 2 ^ 53" using lo assms by (simp add: n_def)
  then have "nat e \<le> 53" by (rule power_le_imp_le_exp [rotated]) simp
  with e0 have e53: "e \<le> 53" by simp
  have b: "binade (of_int i) = e" using binade_int [OF False] by (simp add: e_def n_def)
  have m: "max e (- 1022) = e" using e0 by simp
  have ex: "\<exists>k. (of_int i :: rat) / pow2 (e - 52) = of_int k"
  proof (cases "e \<le> 52")
    case True
    then have "pow2 (e - 52) = 1 / 2 ^ nat (52 - e)"
      by (cases "e = 52") (simp_all add: pow2_def)
    then have "(of_int i :: rat) / pow2 (e - 52) = of_int (i * 2 ^ nat (52 - e))" by simp
    then show ?thesis by blast
  next
    case False
    with e53 have e: "e = 53" by simp
    with lo assms have "n = 2 ^ 53" by (simp add: n_def)
    then have "i = 2 ^ 53 \<or> i = - (2 ^ 53)" by (auto simp: n_def abs_if split: if_splits)
    then have "(of_int i :: rat) / pow2 (e - 52) = of_int (i div 2)"
      unfolding e by (auto simp: pow2_def)
    then show ?thesis by blast
  qed
  then obtain k where k: "(of_int i :: rat) / pow2 (e - 52) = of_int k" by blast
  have y: "of_int (round_half_even (of_int i / pow2 (e - 52))) * pow2 (e - 52) = (of_int i :: rat)"
    unfolding k round_half_even_int using k [symmetric] pow2_pos [of "e - 52"] by simp
  have bound: "\<bar>of_int i :: rat\<bar> \<le> 2 ^ 53"
    using assms by (metis of_int_abs of_int_le_iff of_int_numeral of_int_power)
  have p: "pow2 1024 = 2 ^ 1024" by (simp add: pow2_def)
  have big: "(2::rat) ^ 53 < 2 ^ 1024" by (simp add: power_strict_increasing_iff)
  from bound big have n1: "\<not> pow2 1024 \<le> (of_int i :: rat)" and n2: "\<not> (of_int i :: rat) \<le> - pow2 1024"
    unfolding p by linarith+
  from False have nz: "(of_int i :: rat) \<noteq> 0" by simp
  show ?thesis
    using nz n1 n2 by (simp add: round_double_def b m y Let_def)
qed

lemma round_double_exact:
  assumes "is_integer x" and "\<bar>x\<bar> \<le> 2 ^ 53"
  shows "round_double x = Fin x"
proof -
  from assms(1) obtain i where x: "x = of_int i"
    by (auto simp: is_integer_iff elim: Ints_cases)
  with assms(2) have "\<bar>i\<bar> \<le> 2 ^ 53"
    by (metis of_int_abs of_int_le_iff of_int_numeral of_int_power)
  from round_double_of_int [OF this] show ?thesis by (simp add: x)
qed

lemma is_integer_arith:
  "is_integer a \<Longrightarrow> is_integer b \<Longrightarrow> is_integer (a + b)"
  "is_integer a \<Longrightarrow> is_integer b \<Longrightarrow> is_integer (a - b)"
  "is_integer a \<Longrightarrow> is_integer b \<Longrightarrow> is_integer (a * b)"
  "is_integer (of_nat n)" "is_integer (numeral w)" "is_integer 0" "is_integer 1"
  by (simp_all add: is_integer_iff)


lemma js_sub_exact:
  "is_integer a \<Longrightarrow> is_integer b \<Longrightarrow> \<bar>a - b\<bar> \<le> 2 ^ 53 \<Longrightarrow> js_sub (Fin a) (Fin b) = Fin (a - b)"
  by (simp add: js_sub_def round_double_exact is_integer_arith)

lemma js_mul_exact:
  "is_integer a \<Longrightarrow> is_integer b \<Longrightarrow> \<bar>a * b\<bar> \<le> 2 ^ 53 \<Longrightarrow> js_mul (Fin a) (Fin b) = Fin (a * b)"
  by (simp add: round_double_exact is_integer_arith)




section \<open>The store: lookups after writes\<close>

lemma map_of_kv_put: "map_of (kv_put k v xs) = (map_of xs)(k \<mapsto> v)"
  by (induction xs) (auto simp: fun_eq_iff)

lemma keys_kv_put: "fst ` set (kv_put k v xs) = insert k (fst ` set xs)"
proof -
  have "fst ` set (kv_put k v xs) = dom (map_of (kv_put k v xs))"
    by (simp add: dom_map_of_conv_image_fst)
  also have "\<dots> = insert k (dom (map_of xs))"
    by (simp add: map_of_kv_put)
  finally show ?thesis
    by (simp add: dom_map_of_conv_image_fst)
qed

lemma kv_ok_Cons: "kv_ok ((k, v) # xs) = ((\<forall>k' \<in> fst ` set xs. k < k') \<and> kv_ok xs)"
  by (auto simp: kv_ok_def)

lemma kv_ok_kv_put: "kv_ok xs \<Longrightarrow> kv_ok (kv_put k v xs)"
proof (induction xs)
  case Nil
  then show ?case by (simp add: kv_ok_def)
next
  case (Cons x xs)
  obtain k' v' where x: "x = (k', v')" by (cases x)
  show ?case
  proof (cases "k = k'")
    case True
    with Cons.prems x show ?thesis by (simp add: kv_ok_Cons)
  next
    case False
    note neq = this
    show ?thesis
    proof (cases "k < k'")
      case True
      with Cons.prems x neq show ?thesis
        by (auto simp: kv_ok_Cons)
    next
      case False
      with neq have "k' < k" by simp
      with Cons x neq False show ?thesis
        by (auto simp: kv_ok_Cons keys_kv_put)
    qed
  qed
qed

lemma kv_ok_distinct: "kv_ok xs \<Longrightarrow> distinct (map fst xs)"
  by (simp add: kv_ok_def strict_sorted_iff)

lemma kv_ok_length: "kv_ok xs \<Longrightarrow> length xs = card (fst ` set xs)"
proof -
  assume "kv_ok xs"
  then have "distinct (map fst xs)" by (rule kv_ok_distinct)
  then have "card (set (map fst xs)) = length (map fst xs)" by (rule distinct_card)
  then show ?thesis by simp
qed

lemma kv_put_present:
  "kv_ok xs \<Longrightarrow> k \<in> fst ` set xs \<Longrightarrow>
     kv_put k v xs = map (\<lambda>x. if fst x = k then (k, v) else x) xs"
proof (induction xs)
  case Nil
  then show ?case by simp
next
  case (Cons x xs)
  obtain k' v' where x: "x = (k', v')" by (cases x)
  from Cons.prems(1) x have above: "\<forall>j \<in> fst ` set xs. k' < j" and ok: "kv_ok xs"
    by (simp_all add: kv_ok_Cons)
  show ?case
  proof (cases "k = k'")
    case True
    from above True have "\<forall>y \<in> set xs. fst y \<noteq> k" by auto
    then have "map (\<lambda>x. if fst x = k then (k, v) else x) xs = xs"
      by (induction xs) auto
    with True x show ?thesis by simp
  next
    case False
    with Cons.prems(2) x have mem: "k \<in> fst ` set xs" by auto
    with above have "k' < k" by blast
    with False x Cons.IH [OF ok mem] show ?thesis by auto
  qed
qed


lemma commit_no_checks:
  "commit [] muts s =
     (True, (foldl (apply_mutation (Suc (version s))) s muts)\<lparr>version := Suc (version s)\<rparr>)"
  by (simp add: commit_def)

lemma commit_checked:
  "commit [(name, v)] muts s =
     (if snd (kv_get_user s name) = v then commit [] muts s else (False, s))"
  by (simp add: commit_def check_ok_def)

lemma getUser_users: "users s' = users s \<Longrightarrow> getUser s' = getUser s"
  by (simp add: fun_eq_iff getUser_def kv_get_user_def)

lemma getUser_kv_put:
  "users s' = kv_put name (u, v) (users s) \<Longrightarrow>
     getUser s' n = (if n = name then Some u else getUser s n)"
  by (simp add: getUser_def kv_get_user_def map_of_kv_put)

lemma saveUser_simps:
  "users (saveUser u s) = kv_put (username u) (u, Suc (version s)) (users s)"
  "bets (saveUser u s) = bets s"
  "results (saveUser u s) = results s"
  "version (saveUser u s) = Suc (version s)"
  by (simp_all add: saveUser_def commit_no_checks)

lemma getUser_saveUser:
  "getUser (saveUser u s) n = (if n = username u then Some u else getUser s n)"
  by (rule getUser_kv_put) (simp add: saveUser_simps)

lemma kv_get_user_saveUser:
  "kv_get_user (saveUser u s) (username u) = (Some u, Some (Suc (version s)))"
  by (simp add: kv_get_user_def saveUser_simps map_of_kv_put)

lemma bets_kv_set_bet: "bets (kv_set_bet k b s) = kv_put k b (bets s)"
  by (simp add: kv_set_bet_def commit_no_checks)

section \<open>Bet expansion: the numbers of each bet type\<close>

lemma upt10: "[0..<10] = [0, 1, 2, 3, 4, 5, 6, 7, 8, 9]"
  by (simp add: upt_conv_Cons)

lemma double_form:
  "numbersToBet ''double'' raw =
     Inr [''00'', ''11'', ''22'', ''33'', ''44'', ''55'', ''66'', ''77'', ''88'', ''99'']"
  by (simp add: numbersToBet_def digit_str_def upt10)

lemma head_form:
  "is_digit d \<Longrightarrow> numbersToBet ''head'' [d] = Inr (map (\<lambda>c. [d, c]) ''0123456789'')"
  by (simp add: numbersToBet_def digit_str_def upt10 test_d1_def)

lemma tail_form:
  "is_digit d \<Longrightarrow> numbersToBet ''tail'' [d] = Inr (map (\<lambda>c. [c, d]) ''0123456789'')"
  by (simp add: numbersToBet_def digit_str_def upt10 test_d1_def)

lemma r_form:
  "is_digit a \<Longrightarrow> is_digit b \<Longrightarrow>
     numbersToBet ''r'' [a, b] = Inr (if a = b then [[a, b]] else [[a, b], [b, a]])"
  by (auto simp: numbersToBet_def test_d2_def Let_def)

lemma direct_form:
  "is_digit a \<Longrightarrow> is_digit b \<Longrightarrow> numbersToBet ''direct'' [a, b] = Inr [[a, b]]"
  by (simp add: numbersToBet_def test_d2_def)

lemma unknown_form:
  "betType \<notin> {''double'', ''head'', ''tail'', ''r'', ''direct''} \<Longrightarrow>
     numbersToBet betType raw = Inl ValidationError"
  by (simp add: numbersToBet_def)

lemma test_d1_D: "test_d1 x \<Longrightarrow> \<exists>d. x = [d] \<and> is_digit d"
  by (auto simp: test_d1_def split: list.splits)

lemma test_d2_D: "test_d2 x \<Longrightarrow> \<exists>a b. x = [a, b] \<and> is_digit a \<and> is_digit b"
  by (auto simp: test_d2_def split: list.splits)

lemma numbersToBet_distinct:
  assumes "numbersToBet betType number = Inr ns"
  shows "distinct ns"
proof -
  consider (double) "betType = ''double''" | (head) "betType = ''head''"
    | (tail) "betType = ''tail''" | (r) "betType = ''r''" | (direct) "betType = ''direct''"
    | (unknown) "betType \<notin> {''double'', ''head'', ''tail'', ''r'', ''direct''}"
    by blast
  then show ?thesis
  proof cases
    case double
    with assms show ?thesis by (auto simp: double_form)
  next
    case head
    show ?thesis
    proof (cases "test_d1 number")
      case True
      then obtain d where "number = [d]" "is_digit d" using test_d1_D by blast
      with assms head show ?thesis by (auto simp: head_form)
    next
      case False
      with assms head show ?thesis by (simp add: numbersToBet_def)
    qed
  next
    case tail
    show ?thesis
    proof (cases "test_d1 number")
      case True
      then obtain d where "number = [d]" "is_digit d" using test_d1_D by blast
      with assms tail show ?thesis by (auto simp: tail_form)
    next
      case False
      with assms tail show ?thesis by (simp add: numbersToBet_def)
    qed
  next
    case r
    show ?thesis
    proof (cases "test_d2 number")
      case True
      then obtain a b where "number = [a, b]" "is_digit a" "is_digit b" using test_d2_D by blast
      with assms r show ?thesis by (auto simp: r_form split: if_splits)
    next
      case False
      with assms r show ?thesis by (simp add: numbersToBet_def)
    qed
  next
    case direct
    show ?thesis
    proof (cases "test_d2 number")
      case True
      then obtain a b where "number = [a, b]" "is_digit a" "is_digit b" using test_d2_D by blast
      with assms direct show ?thesis by (auto simp: direct_form)
    next
      case False
      with assms direct show ?thesis by (simp add: numbersToBet_def)
    qed
  next
    case unknown
    with assms show ?thesis by (simp add: unknown_form)
  qed
qed

section \<open>Saving the bets of a placement\<close>

lemma users_save_bets: "users (save_bets e u a sess i ns s) = users s"
  by (induction ns arbitrary: i s) (simp_all add: kv_set_bet_def commit_def Let_def)

lemma getUser_save_bets: "getUser (save_bets e u a sess i ns s) = getUser s"
  by (simp add: fun_eq_iff getUser_def kv_get_user_def users_save_bets)

lemma kv_get_user_save_bets:
  "kv_get_user (save_bets e u a sess i ns s) = kv_get_user s"
  by (simp add: fun_eq_iff kv_get_user_def users_save_bets)

lemma save_bets_Cons:
  "save_bets e u a sess i (num # nums) s =
     save_bets e u a sess (Suc i) nums
       (kv_set_bet (placed_key e u i) (placed_bet e u a sess i num) s)"
  by (simp add: Let_def placed_key_def placed_bet_def)

lemma placed_key_eq: "(placed_key e u i = placed_key e u j) = (randomUUID e i = randomUUID e j)"
  by (simp add: placed_key_def)

lemma save_bets_other:
  assumes "\<forall>j < length ns. k \<noteq> placed_key e u (i + j)"
  shows "map_of (bets (save_bets e u a sess i ns s)) k = map_of (bets s) k"
  using assms
proof (induction ns arbitrary: i s)
  case Nil
  then show ?case by simp
next
  case (Cons num nums)
  from Cons.prems have k0: "k \<noteq> placed_key e u i" by force
  have rest: "\<forall>j < length nums. k \<noteq> placed_key e u (Suc i + j)"
  proof (intro allI impI)
    fix j assume "j < length nums"
    then have "Suc j < length (num # nums)" by simp
    with Cons.prems have "k \<noteq> placed_key e u (i + Suc j)" by blast
    then show "k \<noteq> placed_key e u (Suc i + j)" by simp
  qed
  show ?case
    unfolding save_bets_Cons Cons.IH [OF rest]
    using k0 by (simp add: bets_kv_set_bet map_of_kv_put)
qed

lemma save_bets_at:
  assumes "inj_on (randomUUID e) {i ..< i + length ns}" and "j < length ns"
  shows "map_of (bets (save_bets e u a sess i ns s)) (placed_key e u (i + j))
           = Some (placed_bet e u a sess (i + j) (ns ! j))"
  using assms
proof (induction ns arbitrary: i j s)
  case Nil
  then show ?case by simp
next
  case (Cons num nums)
  let ?s1 = "kv_set_bet (placed_key e u i) (placed_bet e u a sess i num) s"
  show ?case
  proof (cases j)
    case 0
    have "\<forall>j' < length nums. placed_key e u i \<noteq> placed_key e u (Suc i + j')"
    proof (intro allI impI)
      fix j' assume "j' < length nums"
      then have "Suc i + j' \<in> {i ..< i + length (num # nums)}" and "i \<in> {i ..< i + length (num # nums)}"
        by simp_all
      note mem = this
      have "randomUUID e i \<noteq> randomUUID e (Suc i + j')"
      proof
        assume "randomUUID e i = randomUUID e (Suc i + j')"
        from inj_onD [OF Cons.prems(1) this mem(2) mem(1)] show False by simp
      qed
      then show "placed_key e u i \<noteq> placed_key e u (Suc i + j')"
        by (simp add: placed_key_eq)
    qed
    from save_bets_other [OF this]
    have "map_of (bets (save_bets e u a sess (Suc i) nums ?s1)) (placed_key e u i)
            = map_of (bets ?s1) (placed_key e u i)" .
    with 0 show ?thesis
      unfolding save_bets_Cons by (simp add: bets_kv_set_bet map_of_kv_put)
  next
    case (Suc j')
    with Cons.prems(2) have lt: "j' < length nums" by simp
    have "{Suc i ..< Suc i + length nums} \<subseteq> {i ..< i + length (num # nums)}" by auto
    with Cons.prems(1) have inj: "inj_on (randomUUID e) {Suc i ..< Suc i + length nums}"
      by (rule inj_on_subset)
    from Cons.IH [OF inj lt, of ?s1] Suc show ?thesis
      unfolding save_bets_Cons by simp
  qed
qed

lemma keys_save_bets:
  "fst ` set (bets (save_bets e u a sess i ns s))
     = fst ` set (bets s) \<union> placed_key e u ` {i ..< i + length ns}"
proof (induction ns arbitrary: i s)
  case Nil
  then show ?case by simp
next
  case (Cons num nums)
  have "{i ..< i + length (num # nums)} = insert i {Suc i ..< Suc i + length nums}"
    by auto
  then show ?case
    unfolding save_bets_Cons Cons.IH by (simp add: bets_kv_set_bet keys_kv_put)
qed

lemma kv_ok_save_bets: "kv_ok (bets s) \<Longrightarrow> kv_ok (bets (save_bets e u a sess i ns s))"
proof (induction ns arbitrary: i s)
  case Nil
  then show ?case by simp
next
  case (Cons num nums)
  show ?case
    unfolding save_bets_Cons
    by (rule Cons.IH) (simp add: bets_kv_set_bet kv_ok_kv_put Cons.prems)
qed

lemma length_save_bets:
  assumes "kv_ok (bets s)" and "inj_on (randomUUID e) {i ..< i + length ns}"
    and "\<forall>j < length ns. placed_key e u (i + j) \<notin> fst ` set (bets s)"
  shows "length (bets (save_bets e u a sess i ns s)) = length (bets s) + length ns"
proof -
  have inj: "inj_on (placed_key e u) {i ..< i + length ns}"
    using assms(2) by (simp add: inj_on_def placed_key_eq)
  have disj: "fst ` set (bets s) \<inter> placed_key e u ` {i ..< i + length ns} = {}"
  proof (rule ccontr)
    assume "fst ` set (bets s) \<inter> placed_key e u ` {i ..< i + length ns} \<noteq> {}"
    then obtain k where k1: "k \<in> fst ` set (bets s)"
      and k2: "k \<in> placed_key e u ` {i ..< i + length ns}" by blast
    from k2 obtain x where x: "x \<in> {i ..< i + length ns}" and kx: "k = placed_key e u x"
      by blast
    from x have lt: "x - i < length ns" and eq: "i + (x - i) = x" by auto
    from assms(3) lt have "placed_key e u (i + (x - i)) \<notin> fst ` set (bets s)" by blast
    with k1 kx eq show False by simp
  qed
  have "length (bets (save_bets e u a sess i ns s))
          = card (fst ` set (bets s) \<union> placed_key e u ` {i ..< i + length ns})"
    using kv_ok_length [OF kv_ok_save_bets [OF assms(1)]] by (simp add: keys_save_bets)
  also have "\<dots> = card (fst ` set (bets s)) + card (placed_key e u ` {i ..< i + length ns})"
    by (rule card_Un_disjoint) (simp_all add: disj)
  also have "\<dots> = length (bets s) + length ns"
    using kv_ok_length [OF assms(1)] card_image [OF inj] by simp
  finally show ?thesis .
qed

section \<open>The bet handler, path by path\<close>

lemma bet_ok:
  assumes "getUser s owner = Some u" and "valid_stake amount"
    and "resolve_session (hour e) = Some sess"
    and "numbersToBet betType (trim rawNumber) = Inr ns"
    and "\<not> js_less (balance u) (totalCost ns amount)"
    and "snd (kv_get_user (fb (fa s)) (username u)) = snd (kv_get_user (fa s) (username u))"
  shows "api_2d_bet_conc fa fb e owner rawNumber amount betType s =
           (Inr (length ns, totalCost ns amount, js_sub (balance u) (totalCost ns amount)),
            save_bets e u amount sess 0 ns
              (saveUser (u\<lparr>balance := js_sub (balance u) (totalCost ns amount)\<rparr>) (fb (fa s))))"
proof -
  let ?u' = "u\<lparr>balance := js_sub (balance u) (totalCost ns amount)\<rparr>"
  have c: "commit [(username u, snd (kv_get_user (fa s) (username u)))]
             [SetUser (username u) ?u'] (fb (fa s)) = (True, saveUser ?u' (fb (fa s)))"
    using assms(6) by (simp add: commit_checked saveUser_def commit_no_checks)
  have g: "getUser (save_bets e u amount sess 0 ns (saveUser ?u' (fb (fa s)))) (username u) = Some ?u'"
    by (simp add: getUser_save_bets getUser_saveUser)
  have v: "\<not> (isNaN amount \<or> js_less amount (Fin 100))"
    using assms(2) by (simp add: valid_stake_def)
  show ?thesis
    using assms(1,3,4,5) v c g
    by (simp add: api_2d_bet_conc_def Let_def totalCost_def)
qed

lemma bet_conflict:
  assumes "getUser s owner = Some u" and "valid_stake amount"
    and "resolve_session (hour e) = Some sess"
    and "numbersToBet betType (trim rawNumber) = Inr ns"
    and "\<not> js_less (balance u) (totalCost ns amount)"
    and "snd (kv_get_user (fb (fa s)) (username u)) \<noteq> snd (kv_get_user (fa s) (username u))"
  shows "api_2d_bet_conc fa fb e owner rawNumber amount betType s =
           (Inl ConcurrencyConflict, fb (fa s))"
proof -
  have v: "\<not> (isNaN amount \<or> js_less amount (Fin 100))"
    using assms(2) by (simp add: valid_stake_def)
  show ?thesis
    using assms(1,3,4,5,6) v
    by (simp add: api_2d_bet_conc_def Let_def commit_checked totalCost_def)
qed

lemma bet_insufficient:
  assumes "getUser s owner = Some u" and "valid_stake amount"
    and "resolve_session (hour e) = Some sess"
    and "numbersToBet betType (trim rawNumber) = Inr ns"
    and "js_less (balance u) (totalCost ns amount)"
  shows "api_2d_bet_conc fa fb e owner rawNumber amount betType s =
           (Inl InsufficientFunds, s)"
proof -
  have v: "\<not> (isNaN amount \<or> js_less amount (Fin 100))"
    using assms(2) by (simp add: valid_stake_def)
  show ?thesis
    using assms(1,3,4,5) v
    by (simp add: api_2d_bet_conc_def Let_def totalCost_def)
qed


lemma bet_market_closed:
  assumes "getUser s owner = Some u" and "valid_stake amount"
    and "resolve_session (hour e) = None"
  shows "api_2d_bet_conc fa fb e owner rawNumber amount betType s = (Inl MarketClosed, s)"
proof -
  have v: "\<not> (isNaN amount \<or> js_less amount (Fin 100))"
    using assms(2) by (simp add: valid_stake_def)
  show ?thesis
    using assms(1,3) v by (simp add: api_2d_bet_conc_def)
qed

lemma bet_invalid_number:
  assumes "getUser s owner = Some u" and "valid_stake amount"
    and "resolve_session (hour e) = Some sess"
    and "numbersToBet betType (trim rawNumber) = Inl err"
  shows "api_2d_bet_conc fa fb e owner rawNumber amount betType s = (Inl err, s)"
proof -
  have v: "\<not> (isNaN amount \<or> js_less amount (Fin 100))"
    using assms(2) by (simp add: valid_stake_def)
  show ?thesis
    using assms(1,3,4) v by (simp add: api_2d_bet_conc_def)
qed


text \<open>Every run of the handler is one of three: nothing written and the store it started
  from; nothing written and the store the other writers made (the conflict); or the
  debit and the bets on top of the store the other writers made.\<close>

lemma bet_run:
  obtains (unchanged) err where
      "api_2d_bet_conc fa fb e owner rawNumber amount betType s = (Inl err, s)"
  | (conflict) u sess ns where "getUser s owner = Some u" "valid_stake amount"
      "resolve_session (hour e) = Some sess"
      "numbersToBet betType (trim rawNumber) = Inr ns"
      "\<not> js_less (balance u) (totalCost ns amount)"
      "snd (kv_get_user (fb (fa s)) (username u)) \<noteq> snd (kv_get_user (fa s) (username u))"
      "api_2d_bet_conc fa fb e owner rawNumber amount betType s
         = (Inl ConcurrencyConflict, fb (fa s))"
  | (placed) u sess ns where "getUser s owner = Some u" "valid_stake amount"
      "resolve_session (hour e) = Some sess"
      "numbersToBet betType (trim rawNumber) = Inr ns"
      "\<not> js_less (balance u) (totalCost ns amount)"
      "snd (kv_get_user (fb (fa s)) (username u)) = snd (kv_get_user (fa s) (username u))"
      "api_2d_bet_conc fa fb e owner rawNumber amount betType s =
         (Inr (length ns, totalCost ns amount, js_sub (balance u) (totalCost ns amount)),
          save_bets e u amount sess 0 ns
            (saveUser (u\<lparr>balance := js_sub (balance u) (totalCost ns amount)\<rparr>) (fb (fa s))))"
proof (cases "getUser s owner")
  case None
  then have "api_2d_bet_conc fa fb e owner rawNumber amount betType s = (Inl Unauthorized, s)"
    by (simp add: api_2d_bet_conc_def)
  then show ?thesis by (rule unchanged)
next
  case (Some u)
  note u = this
  show ?thesis
  proof (cases "valid_stake amount")
    case False
    then have "isNaN amount \<or> js_less amount (Fin 100)" by (simp add: valid_stake_def)
    with u have "api_2d_bet_conc fa fb e owner rawNumber amount betType s = (Inl ValidationError, s)"
      by (simp add: api_2d_bet_conc_def)
    then show ?thesis by (rule unchanged)
  next
    case True
    note v = this
    show ?thesis
    proof (cases "resolve_session (hour e)")
      case None
      from bet_market_closed [where fa = fa and fb = fb, OF u v None]
      show ?thesis by (rule unchanged)
    next
      case (Some sess)
      note se = this
      show ?thesis
      proof (cases "numbersToBet betType (trim rawNumber)")
        case (Inl err)
        from bet_invalid_number [where fa = fa and fb = fb, OF u v se Inl]
        show ?thesis by (rule unchanged)
      next
        case (Inr ns)
        note ns = this
        show ?thesis
        proof (cases "js_less (balance u) (totalCost ns amount)")
          case True
          from bet_insufficient [where fa = fa and fb = fb, OF u v se ns True]
          show ?thesis by (rule unchanged)
        next
          case False
          note le = this
          show ?thesis
          proof (cases "snd (kv_get_user (fb (fa s)) (username u))
                          = snd (kv_get_user (fa s) (username u))")
            case True
            from u v se ns le True bet_ok [where fa = fa and fb = fb, OF u v se ns le True]
            show ?thesis by (rule placed)
          next
            case False
            from u v se ns le False bet_conflict [where fa = fa and fb = fb, OF u v se ns le False]
            show ?thesis by (rule conflict)
          qed
        qed
      qed
    qed
  qed
qed

lemma bet_success_D:
  assumes "api_2d_bet_conc fa fb e owner rawNumber amount betType s = (Inr (n, cost, nb), s')"
  shows "\<exists>u sess ns. getUser s owner = Some u \<and> valid_stake amount
           \<and> resolve_session (hour e) = Some sess
           \<and> numbersToBet betType (trim rawNumber) = Inr ns
           \<and> n = length ns \<and> cost = totalCost ns amount \<and> \<not> js_less (balance u) cost
           \<and> nb = js_sub (balance u) cost
           \<and> snd (kv_get_user (fb (fa s)) (username u)) = snd (kv_get_user (fa s) (username u))
           \<and> s' = save_bets e u amount sess 0 ns
                     (saveUser (u\<lparr>balance := js_sub (balance u) cost\<rparr>) (fb (fa s)))"
proof (cases rule: bet_run [of fa fb e owner rawNumber amount betType s])
  case (unchanged err)
  with assms show ?thesis by simp
next
  case (conflict u sess ns)
  with assms show ?thesis by simp
next
  case (placed u sess ns)
  with assms show ?thesis by auto
qed

lemma bet_error_D:
  assumes "isl (fst (api_2d_bet_conc fa fb e owner rawNumber amount betType s))"
  shows "snd (api_2d_bet_conc fa fb e owner rawNumber amount betType s) = s
         \<or> snd (api_2d_bet_conc fa fb e owner rawNumber amount betType s) = fb (fa s)"
proof (cases rule: bet_run [of fa fb e owner rawNumber amount betType s])
  case (unchanged err)
  then show ?thesis by simp
next
  case (conflict u sess ns)
  then show ?thesis by simp
next
  case (placed u sess ns)
  with assms show ?thesis by simp
qed

section \<open>The top-up handler, path by path\<close>

lemma topup_ok:
  assumes "getUser s caller = Some a" and "isAdmin a"
    and "getUser s target = Some t" and "valid_topup amount"
    and "snd (kv_get_user (fb (fa s)) target) = snd (kv_get_user (fa s) target)"
  shows "admin_topup_conc fa fb caller target amount s =
           (Inr amount,
            snd (commit [] [SetUser target (t\<lparr>balance := js_add (balance t) amount\<rparr>)]
                   (fb (fa s))))"
proof -
  have v: "\<not> (isNaN amount \<or> js_le amount (Fin 0))"
    using assms(4) by (simp add: valid_topup_def)
  show ?thesis
    using assms(1,2,3,5) v
    by (simp add: admin_topup_conc_def Let_def commit_checked commit_no_checks)
qed

lemma topup_conflict:
  assumes "getUser s caller = Some a" and "isAdmin a"
    and "getUser s target = Some t" and "valid_topup amount"
    and "snd (kv_get_user (fb (fa s)) target) \<noteq> snd (kv_get_user (fa s) target)"
  shows "admin_topup_conc fa fb caller target amount s =
           (Inl ConcurrencyConflict, fb (fa s))"
proof -
  have v: "\<not> (isNaN amount \<or> js_le amount (Fin 0))"
    using assms(4) by (simp add: valid_topup_def)
  show ?thesis
    using assms(1,2,3,5) v
    by (simp add: admin_topup_conc_def Let_def commit_checked)
qed



section \<open>Settlement: the loop body and the sweep\<close>

lemma sweep_Nil: "sweep w sess m [] acc = acc"
  by (simp add: sweep_def)

lemma sweep_Cons:
  "sweep w sess m (e # es) acc = sweep w sess m es (settle_entry w sess m e acc)"
  by (simp add: sweep_def settle_entry_def)

lemma process2DWinnings_eq:
  "process2DWinnings date w sess m s =
     (let r = sweep w sess m (list_bets date s) (s, 0) in (snd r, fst r))"
  by (simp add: process2DWinnings_def process2DWinnings_conc_def sweep_def)




lemma settle_entry_conc_skip:
  assumes "\<not> (b_status bet = Pending \<and> b_session bet = sess)"
  shows "settle_entry_conc f w sess m (k, bet) (s, c) = (s, c)"
  using assms by (auto simp add: settle_entry_conc_def Let_def)

lemma settle_entry_win:
  assumes "b_status bet = Pending" and "b_session bet = sess" and "b_number bet = w"
    and "getUser s (b_username bet) = Some u"
  shows "settle_entry w sess m (k, bet) (s, c) =
           (snd (commit [] [SetBet k (bet\<lparr>b_status := Win\<rparr>),
                            SetUser (b_username bet)
                              (u\<lparr>balance := js_add (balance u) (js_mul (b_amount bet) m)\<rparr>)] s), Suc c)"
  using assms by (simp add: settle_entry_def settle_entry_conc_def Let_def commit_no_checks)

lemma settle_entry_orphan:
  assumes "b_status bet = Pending" and "b_session bet = sess" and "b_number bet = w"
    and "getUser s (b_username bet) = None"
  shows "settle_entry w sess m (k, bet) (s, c) = (kv_set_bet k (bet\<lparr>b_status := Win\<rparr>) s, Suc c)"
  using assms by (simp add: settle_entry_def settle_entry_conc_def Let_def commit_no_checks kv_set_bet_def)

lemma settle_entry_lose:
  assumes "b_status bet = Pending" and "b_session bet = sess" and "b_number bet \<noteq> w"
  shows "settle_entry w sess m (k, bet) (s, c) = (kv_set_bet k (bet\<lparr>b_status := Lose\<rparr>) s, c)"
  using assms by (simp add: settle_entry_def settle_entry_conc_def Let_def commit_no_checks kv_set_bet_def)

lemma settle_entry_skip:
  assumes "\<not> (b_status bet = Pending \<and> b_session bet = sess)"
  shows "settle_entry w sess m (k, bet) (s, c) = (s, c)"
  using assms by (auto simp add: settle_entry_def settle_entry_conc_def Let_def)

lemma bets_settle_entry:
  "bets (fst (settle_entry w sess m entry (s, c))) =
     (if b_status (snd entry) = Pending \<and> b_session (snd entry) = sess
      then kv_put (fst entry)
             ((snd entry)\<lparr>b_status := (if b_number (snd entry) = w then Win else Lose)\<rparr>) (bets s)
      else bets s)"
  by (simp add: settle_entry_def settle_entry_conc_def Let_def commit_no_checks split: option.splits)

lemma count_settle_entry:
  "snd (settle_entry w sess m entry (s, c)) = (if is_winner w sess entry then Suc c else c)"
  by (simp add: settle_entry_def settle_entry_conc_def Let_def commit_no_checks is_winner_def)

lemma count_sweep:
  "snd (sweep w sess m es (s, c)) = c + length (filter (is_winner w sess) es)"
proof (induction es arbitrary: s c)
  case Nil
  then show ?case by (simp add: sweep_Nil)
next
  case (Cons e es)
  obtain s1 c1 where step: "settle_entry w sess m e (s, c) = (s1, c1)"
    by (cases "settle_entry w sess m e (s, c)")
  then have "c1 = (if is_winner w sess e then Suc c else c)"
    using count_settle_entry [of w sess m e s c] by simp
  with Cons.IH [of s1 c1] step show ?case by (simp add: sweep_Cons)
qed

lemma fst_resolve_entry: "fst (resolve_entry w sess x) = fst x"
  by (simp add: resolve_entry_def)

lemma bets_settle_entry_map:
  assumes ok: "kv_ok (bets s)" and mem: "e \<in> set (bets s)"
  shows "bets (fst (settle_entry w sess m e (s, c))) =
           map (\<lambda>x. if x = e then resolve_entry w sess x else x) (bets s)"
proof (cases "b_status (snd e) = Pending \<and> b_session (snd e) = sess")
  case True
  from mem have key: "fst e \<in> fst ` set (bets s)" by force
  have same: "\<And>x. x \<in> set (bets s) \<Longrightarrow> (fst x = fst e) = (x = e)"
    using kv_ok_distinct [OF ok] mem by (metis eq_key_imp_eq_value prod.collapse)
  have "map (\<lambda>x. if fst x = fst e then (fst e, (snd e)\<lparr>b_status := (if b_number (snd e) = w then Win else Lose)\<rparr>) else x) (bets s)
        = map (\<lambda>x. if x = e then resolve_entry w sess x else x) (bets s)"
    using True same by (intro map_cong) (auto simp: resolve_entry_def)
  with True show ?thesis
    by (simp add: bets_settle_entry kv_put_present [OF ok key])
next
  case False
  then have "resolve_entry w sess e = e" by (auto simp: resolve_entry_def)
  then have "map (\<lambda>x. if x = e then resolve_entry w sess x else x) (bets s) = bets s"
    by (induction "bets s") (auto simp: map_idI)
  with False show ?thesis
    by (auto simp add: bets_settle_entry)
qed

lemma bets_sweep:
  assumes "kv_ok (bets s)" and "distinct (map fst es)" and "set es \<subseteq> set (bets s)"
  shows "bets (fst (sweep w sess m es (s, c))) =
           map (\<lambda>x. if x \<in> set es then resolve_entry w sess x else x) (bets s)"
  using assms
proof (induction es arbitrary: s c)
  case Nil
  then show ?case by (simp add: map_idI sweep_Nil)
next
  case (Cons e es)
  obtain s1 c1 where step: "settle_entry w sess m e (s, c) = (s1, c1)"
    by (cases "settle_entry w sess m e (s, c)")
  from Cons.prems have mem: "e \<in> set (bets s)" by simp
  have b1: "bets s1 = map (\<lambda>x. if x = e then resolve_entry w sess x else x) (bets s)"
    using bets_settle_entry_map [OF Cons.prems(1) mem, of w sess m c] step by simp
  have keys: "map fst (bets s1) = map fst (bets s)"
    unfolding b1 by (induction "bets s") (auto simp: fst_resolve_entry)
  have ok1: "kv_ok (bets s1)"
    using Cons.prems(1) keys by (simp add: kv_ok_def)
  from Cons.prems(2) have d: "distinct (map fst es)" and fresh: "fst e \<notin> fst ` set es"
    by auto
  have sub: "set es \<subseteq> set (bets s1)"
  proof
    fix x assume x: "x \<in> set es"
    with fresh have "x \<noteq> e" by force
    moreover from x Cons.prems(3) have "x \<in> set (bets s)" by auto
    ultimately show "x \<in> set (bets s1)" unfolding b1 by force
  qed
  have "bets (fst (sweep w sess m es (s1, c1))) =
          map (\<lambda>x. if x \<in> set es then resolve_entry w sess x else x) (bets s1)"
    by (rule Cons.IH [OF ok1 d sub])
  also have "\<dots> = map (\<lambda>x. if x \<in> set (e # es) then resolve_entry w sess x else x) (bets s)"
  proof -
    have r: "resolve_entry w sess e \<notin> set es"
      using fresh fst_resolve_entry [of w sess e] by (metis image_eqI)
    have ne: "e \<notin> set es" using fresh by force
    show ?thesis
      unfolding b1 map_map using r ne by (intro map_cong) auto
  qed
  finally show ?case using step by (simp add: sweep_Cons)
qed

lemma bets_process2DWinnings:
  assumes "kv_ok (bets s)"
  shows "bets (snd (process2DWinnings date w sess m s)) = map (spec_resolve date w sess) (bets s)"
proof -
  have d: "distinct (map fst (list_bets date s))"
    unfolding list_bets_def using kv_ok_distinct [OF assms] by (rule distinct_map_filter)
  have sub: "set (list_bets date s) \<subseteq> set (bets s)"
    by (auto simp: list_bets_def)
  have "bets (snd (process2DWinnings date w sess m s)) =
          map (\<lambda>x. if x \<in> set (list_bets date s) then resolve_entry w sess x else x) (bets s)"
    using bets_sweep [OF assms d sub] by (simp add: process2DWinnings_eq Let_def)
  also have "\<dots> = map (spec_resolve date w sess) (bets s)"
    by (intro map_cong) (auto simp: list_bets_def resolve_entry_def spec_resolve_def)
  finally show ?thesis .
qed

lemma credited_Nil: "credited w sess m n [] u = u"
  by (simp add: credited_def)

lemma credited_Cons:
  "credited w sess m n (e # es) u =
     credited w sess m n es
       (if is_winner w sess e \<and> b_username (snd e) = n then pay m u e else u)"
  by (simp add: credited_def)

lemma getUser_settle_entry:
  "getUser (fst (settle_entry w sess m e (s, c))) n =
     (if is_winner w sess e \<and> b_username (snd e) = n
      then map_option (\<lambda>u. pay m u e) (getUser s n)
      else getUser s n)"
proof (cases "is_winner w sess e")
  case False
  then have "users (fst (settle_entry w sess m e (s, c))) = users s"
    by (auto simp: settle_entry_def settle_entry_conc_def Let_def commit_no_checks is_winner_def)
  from getUser_users [OF this] False show ?thesis by simp
next
  case True
  note win = this
  show ?thesis
  proof (cases "getUser s (b_username (snd e))")
    case None
    with win have "users (fst (settle_entry w sess m e (s, c))) = users s"
      by (auto simp: settle_entry_def settle_entry_conc_def Let_def commit_no_checks is_winner_def)
    from getUser_users [OF this] None show ?thesis by auto
  next
    case (Some u)
    with win have "users (fst (settle_entry w sess m e (s, c))) =
        kv_put (b_username (snd e)) (pay m u e, Suc (version s)) (users s)"
      by (auto simp: settle_entry_def settle_entry_conc_def Let_def commit_no_checks
            is_winner_def pay_def)
    from getUser_kv_put [OF this] Some win show ?thesis by auto
  qed
qed

lemma getUser_sweep:
  "getUser (fst (sweep w sess m es (s, c))) n =
     map_option (credited w sess m n es) (getUser s n)"
proof (induction es arbitrary: s c)
  case Nil
  then show ?case by (cases "getUser s n") (simp_all add: credited_Nil sweep_Nil)
next
  case (Cons e es)
  obtain s1 c1 where step: "settle_entry w sess m e (s, c) = (s1, c1)"
    by (cases "settle_entry w sess m e (s, c)")
  have g1: "getUser s1 n =
     (if is_winner w sess e \<and> b_username (snd e) = n
      then map_option (\<lambda>u. pay m u e) (getUser s n)
      else getUser s n)"
    using getUser_settle_entry [of w sess m e s c n] step by simp
  have "getUser (fst (sweep w sess m (e # es) (s, c))) n =
          map_option (credited w sess m n es) (getUser s1 n)"
    using Cons.IH [of s1 c1] step by (simp add: sweep_Cons)
  also have "\<dots> = map_option (credited w sess m n (e # es)) (getUser s n)"
    unfolding g1
    by (cases "getUser s n") (simp_all add: credited_Cons)
  finally show ?case .
qed

lemma getUser_process2DWinnings:
  "getUser (snd (process2DWinnings date w sess m s)) n =
     map_option (credited w sess m n (list_bets date s)) (getUser s n)"
  by (simp add: process2DWinnings_eq Let_def getUser_sweep)

lemma count_process2DWinnings:
  "fst (process2DWinnings date w sess m s) = length (filter (is_winner w sess) (list_bets date s))"
  by (simp add: process2DWinnings_eq Let_def count_sweep)

lemma winners_remove:
  assumes "b_username (snd x) \<noteq> name"
  shows "filter (\<lambda>e. is_winner w sess e \<and> b_username (snd e) = name) (filter (\<lambda>y. y \<noteq> x) es)
        = filter (\<lambda>e. is_winner w sess e \<and> b_username (snd e) = name) es"
  unfolding filter_filter using assms by (intro filter_cong) auto

lemma payouts_remove:
  assumes "b_username (snd x) \<noteq> name"
  shows "payouts w sess m name (filter (\<lambda>y. y \<noteq> x) es) = payouts w sess m name es"
  by (simp only: payouts_def winners_remove [OF assms])

lemma credited_remove:
  assumes "b_username (snd x) \<noteq> name"
  shows "credited w sess m name (filter (\<lambda>y. y \<noteq> x) es) u = credited w sess m name es u"
  by (simp only: credited_def winners_remove [OF assms])

lemma sweep_noop:
  "\<forall>e \<in> set es. \<not> (b_status (snd e) = Pending \<and> b_session (snd e) = sess) \<Longrightarrow>
     sweep w sess m es acc = acc"
proof (induction es arbitrary: acc)
  case Nil
  then show ?case by (simp add: sweep_Nil)
next
  case (Cons e es)
  then have "settle_entry w sess m e acc = acc"
    by (auto simp: settle_entry_def settle_entry_conc_def Let_def)
  with Cons show ?case by (simp add: sweep_Cons)
qed

lemma spec_resolve_not_pending:
  "fst (fst x) = date \<Longrightarrow> b_session (snd x) = sess \<Longrightarrow>
     b_status (snd (spec_resolve date w sess x)) \<noteq> Pending"
  by (simp add: spec_resolve_def)

lemma fst_spec_resolve: "fst (spec_resolve date w sess x) = fst x"
  by (simp add: spec_resolve_def)

lemma session_spec_resolve: "b_session (snd (spec_resolve date w sess x)) = b_session (snd x)"
  by (simp add: spec_resolve_def)

lemma no_pending_after:
  assumes "kv_ok (bets s)"
  shows "\<forall>e \<in> set (list_bets date (snd (process2DWinnings date w sess m s))).
           \<not> (b_status (snd e) = Pending \<and> b_session (snd e) = sess)"
proof
  fix e assume "e \<in> set (list_bets date (snd (process2DWinnings date w sess m s)))"
  then obtain x where x: "x \<in> set (bets s)" and e: "e = spec_resolve date w sess x"
    and d: "fst (fst e) = date"
    by (auto simp: list_bets_def bets_process2DWinnings [OF assms])
  from d have dx: "fst (fst x) = date"
    unfolding e by (simp add: fst_spec_resolve)
  show "\<not> (b_status (snd e) = Pending \<and> b_session (snd e) = sess)"
    unfolding e using dx by (auto simp: spec_resolve_def)
qed

lemma process2DWinnings_again:
  assumes "kv_ok (bets s)"
  shows "process2DWinnings date w' sess m' (snd (process2DWinnings date w sess m s)) =
           (0, snd (process2DWinnings date w sess m s))"
proof -
  define s1 where "s1 = snd (process2DWinnings date w sess m s)"
  have "\<forall>e \<in> set (list_bets date s1). \<not> (b_status (snd e) = Pending \<and> b_session (snd e) = sess)"
    unfolding s1_def by (rule no_pending_after [OF assms])
  then have "sweep w' sess m' (list_bets date s1) (s1, 0) = (s1, 0)"
    by (rule sweep_noop)
  then have "process2DWinnings date w' sess m' s1 = (0, s1)"
    by (simp add: process2DWinnings_eq [of date w' sess m' s1])
  then show ?thesis
    unfolding s1_def .
qed

section \<open>Balances and stakes that doubles hold exactly\<close>


















section \<open>Placements one after the other\<close>

lemma request_cost_SomeD:
  assumes "request_cost (e, rawNumber, amount, betType) = Some c"
  shows "\<exists>a sess ns. amount = Fin a \<and> 100 \<le> a \<and> is_integer a
           \<and> resolve_session (hour e) = Some sess
           \<and> numbersToBet betType (trim rawNumber) = Inr ns
           \<and> c = of_nat (length ns) * a"
  using assms
  by (auto simp: request_cost_def split: number.splits option.splits if_splits sum.splits)

lemma request_cost_nonneg: "request_cost r = Some c \<Longrightarrow> 0 \<le> c"
proof -
  assume a: "request_cost r = Some c"
  obtain e rawNumber amount betType where r: "r = (e, rawNumber, amount, betType)"
    by (cases r)
  from request_cost_SomeD [OF a [unfolded r]] obtain a and ns :: "string list"
    where "100 \<le> a" "c = of_nat (length ns) * a" by blast
  then show "0 \<le> c" by simp
qed

lemma total_cost_nonneg: "0 \<le> total_cost reqs"
  unfolding total_cost_def
  by (rule sum_list_nonneg) (auto split: option.splits dest: request_cost_nonneg)

lemma total_cost_Cons:
  "request_cost r = Some c \<Longrightarrow> total_cost (r # reqs) = c + total_cost reqs"
  by (simp add: total_cost_def)

lemma valid_stake_Fin: "valid_stake (Fin a) = (100 \<le> a)"
  by (auto simp: valid_stake_def isNaN_def)

lemma exact_debit:
  assumes "is_integer a" and "0 \<le> a" and "is_integer b" and "b \<le> 2 ^ 53"
    and "of_nat (length ns) * a \<le> b"
  shows "totalCost ns (Fin a) = Fin (of_nat (length ns) * a)"
    and "\<not> js_less (Fin b) (totalCost ns (Fin a))"
    and "js_sub (Fin b) (totalCost ns (Fin a)) = Fin (b - of_nat (length ns) * a)"
proof -
  define c where "c = of_nat (length ns) * a"
  have ci: "is_integer c" and c0: "0 \<le> c" and cb: "c \<le> b"
    using assms by (simp_all add: c_def is_integer_arith)
  from cb assms(4) have c53: "c \<le> 2 ^ 53" by linarith
  have "js_mul (Fin (of_nat (length ns))) (Fin a) = Fin (of_nat (length ns) * a)"
    using assms(1) ci c0 c53 unfolding c_def
    by (intro js_mul_exact) (simp_all add: is_integer_arith)
  then show t: "totalCost ns (Fin a) = Fin (of_nat (length ns) * a)"
    by (simp only: totalCost_def)
  show "\<not> js_less (Fin b) (totalCost ns (Fin a))"
    unfolding t using cb by (simp add: c_def)
  have "js_sub (Fin b) (Fin c) = Fin (b - c)"
    using assms(3,4) ci c0 cb by (intro js_sub_exact) simp_all
  then show "js_sub (Fin b) (totalCost ns (Fin a)) = Fin (b - of_nat (length ns) * a)"
    unfolding t c_def .
qed

lemma run_bets_all_succeed:
  assumes "getUser s owner = Some u" and "username u = owner"
    and "balance u = Fin b" and "is_integer b" and "b \<le> 2 ^ 53"
    and "\<forall>r \<in> set reqs. request_cost r \<noteq> None"
    and "total_cost reqs \<le> b"
  shows "list_all (\<lambda>r. \<not> isl r) (fst (run_bets owner reqs s))
         \<and> length (fst (run_bets owner reqs s)) = length reqs
         \<and> getUser (snd (run_bets owner reqs s)) owner
             = Some (u\<lparr>balance := Fin (b - total_cost reqs)\<rparr>)"
  using assms
proof (induction reqs arbitrary: s u b)
  case Nil
  then have "u\<lparr>balance := Fin b\<rparr> = u" by simp
  with Nil show ?case by (simp add: total_cost_def)
next
  case (Cons r reqs)
  obtain e rawNumber amount betType where r: "r = (e, rawNumber, amount, betType)"
    by (cases r)
  from Cons.prems(6) obtain c where c: "request_cost r = Some c" by auto
  from request_cost_SomeD [OF c [unfolded r]] obtain a sess ns
    where a: "amount = Fin a" and ge: "100 \<le> a" and ai: "is_integer a"
      and se: "resolve_session (hour e) = Some sess"
      and ns: "numbersToBet betType (trim rawNumber) = Inr ns"
      and cv: "c = of_nat (length ns) * a" by blast
  have tc: "total_cost (r # reqs) = c + total_cost reqs"
    by (rule total_cost_Cons [OF c])
  with Cons.prems(7) total_cost_nonneg [of reqs] have le: "c \<le> b" by simp
  from ge have a0: "0 \<le> a" by simp
  note ex = exact_debit [OF ai a0 Cons.prems(4,5) le [unfolded cv]]
  note e1 = ex(1) [folded cv]
  note e3 = ex(3) [unfolded ex(1), folded cv]
  let ?u' = "u\<lparr>balance := Fin (b - c)\<rparr>"
  let ?s1 = "save_bets e u amount sess 0 ns (saveUser ?u' s)"
  have v: "valid_stake amount" using ge by (simp add: a valid_stake_Fin)
  have nl: "\<not> js_less (balance u) (totalCost ns amount)"
    unfolding Cons.prems(3) a by (rule ex(2))
  have run: "api_2d_bet e owner rawNumber amount betType s =
               (Inr (length ns, Fin c, Fin (b - c)), ?s1)"
    using bet_ok [where fa = "\<lambda>s. s" and fb = "\<lambda>s. s", OF Cons.prems(1) v se ns nl]
    unfolding api_2d_bet_def Cons.prems(3) a e1 e3 by simp
  have g1: "getUser ?s1 owner = Some ?u'"
    using Cons.prems(2) by (simp add: getUser_save_bets getUser_saveUser)
  have n1: "username ?u' = owner" using Cons.prems(2) by simp
  have b1: "balance ?u' = Fin (b - c)" by simp
  have c0: "0 \<le> c" using c by (rule request_cost_nonneg)
  have i1: "is_integer (b - c)"
    using ai Cons.prems(4) by (simp add: cv is_integer_arith)
  have l1: "b - c \<le> 2 ^ 53" using Cons.prems(5) c0 by linarith
  have r1: "\<forall>r \<in> set reqs. request_cost r \<noteq> None" using Cons.prems(6) by simp
  have t1: "total_cost reqs \<le> b - c" using Cons.prems(7) tc by simp
  note ih = Cons.IH [OF g1 n1 b1 i1 l1 r1 t1]
  have unfold: "run_bets owner (r # reqs) s =
      (Inr (length ns, Fin c, Fin (b - c)) # fst (run_bets owner reqs ?s1),
       snd (run_bets owner reqs ?s1))"
    unfolding r by (simp add: Let_def run)
  show ?case
    unfolding unfold using ih tc by (simp add: diff_diff_eq)
qed

section \<open>Recent results\<close>

lemma getRecentResults_length:
  "getRecentResults limit s = Some rs \<Longrightarrow> length rs \<le> limit"
  by (auto simp: getRecentResults_def split: if_splits)

lemma getRecentResults_keys_descending:
  assumes "kv_ok (results s)"
  shows "sorted_wrt (\<lambda>x y. fst y < fst x) (take limit (rev (results s)))"
proof -
  from assms have "sorted_wrt (\<lambda>x y. fst x < fst y) (results s)"
    by (simp add: kv_ok_def sorted_wrt_map)
  then have "sorted_wrt (\<lambda>x y. fst y < fst x) (rev (results s))"
    by (simp add: sorted_wrt_rev)
  then show ?thesis
    by (rule sorted_wrt_take)
qed

section \<open>The example, evaluated\<close>

lemma demo_store_eq: "demo_store = \<lparr>users = [(''alice'', (demo_user, 2)), (''root'', (demo_admin, 1))], bets = [], results = [], version = 2\<rparr>"
  by (simp add: demo_store_def saveUser_def commit_no_checks empty_store_def demo_user_def demo_admin_def)

lemma demo_getUser_alice: "getUser demo_store ''alice'' = Some demo_user"
  by (simp add: demo_store_eq getUser_def kv_get_user_def)

lemma demo_getUser_root: "getUser demo_store ''root'' = Some demo_admin"
  by (simp add: demo_store_eq getUser_def kv_get_user_def)

lemma demo_session: "resolve_session (hour demo_env) = Some Morning"
  by (simp add: resolve_session_def demo_env_def)

lemma trim_12: "trim '' 12 '' = ''12''"
  by (simp add: trim_def white_space_def)

lemma trim_55: "trim ''55'' = ''55''"
  by (simp add: trim_def white_space_def)

lemma trim_digits_12: "trim ''12'' = ''12''"
  by (simp add: trim_def white_space_def)

lemma trim_digit_7: "trim ''7'' = ''7''"
  by (simp add: trim_def white_space_def)

lemma demo_r_12: "numbersToBet ''r'' (trim '' 12 '') = Inr [''12'', ''21'']"
  unfolding trim_12 by (simp add: numbersToBet_def test_d2_def is_digit_def)

lemma demo_r_55: "numbersToBet ''r'' (trim ''55'') = Inr [''55'']"
  unfolding trim_55 by (simp add: numbersToBet_def test_d2_def is_digit_def)

lemma demo_direct_12: "numbersToBet ''direct'' (trim ''12'') = Inr [''12'']"
  unfolding trim_digits_12 by (simp add: numbersToBet_def test_d2_def is_digit_def)

lemma demo_head_7:
  "numbersToBet ''head'' (trim ''7'') =
     Inr [''70'', ''71'', ''72'', ''73'', ''74'', ''75'', ''76'', ''77'', ''78'', ''79'']"
  unfolding trim_digit_7 using head_form [of "CHR ''7''"] by (simp add: is_digit_def)

lemma valid_stake_100: "valid_stake (Fin 100)"
  by (simp add: valid_stake_Fin)

lemma demo_bet_100:
  assumes "getUser s0 ''alice'' = Some demo_user"
    and "numbersToBet betType (trim rawNumber) = Inr ns"
    and "of_nat (length ns) * 100 \<le> (10000 :: rat)"
  shows "api_2d_bet_conc fa (\<lambda>s. s) demo_env ''alice'' rawNumber (Fin 100) betType s0 =
     (Inr (length ns, Fin (of_nat (length ns) * 100), Fin (10000 - of_nat (length ns) * 100)),
      save_bets demo_env demo_user (Fin 100) Morning 0 ns
        (saveUser (demo_user\<lparr>balance := Fin (10000 - of_nat (length ns) * 100)\<rparr>) (fa s0)))"
proof -
  have b: "balance demo_user = Fin 10000" by (simp add: demo_user_def)
  note ex = exact_debit [where a = 100 and b = 10000 and ns = ns, OF _ _ _ _ assms(3)]
  have e1: "totalCost ns (Fin 100) = Fin (of_nat (length ns) * 100)"
    by (rule ex(1)) (simp_all add: is_integer_arith)
  have e2: "\<not> js_less (balance demo_user) (totalCost ns (Fin 100))"
    unfolding b by (rule ex(2)) (simp_all add: is_integer_arith)
  have e3: "js_sub (Fin 10000) (Fin (of_nat (length ns) * 100)) = Fin (10000 - of_nat (length ns) * 100)"
    unfolding e1 [symmetric] by (rule ex(3)) (simp_all add: is_integer_arith)
  from bet_ok [where fa = fa and fb = "\<lambda>s. s", OF assms(1) valid_stake_100 demo_session
      assms(2) e2]
  show ?thesis
    unfolding e1 b e3 by simp
qed

lemma demo_bet_r55:
  "api_2d_bet demo_env ''alice'' ''55'' (Fin 100) ''r'' demo_store =
     (Inr (1, Fin 100, Fin 9900),
      save_bets demo_env demo_user (Fin 100) Morning 0 [''55'']
        (saveUser (demo_user\<lparr>balance := Fin 9900\<rparr>) demo_store))"
  unfolding api_2d_bet_def
  using demo_bet_100 [where fa = "\<lambda>s. s", OF demo_getUser_alice demo_r_55] by simp

lemma demo_bet_r12:
  "api_2d_bet demo_env ''alice'' '' 12 '' (Fin 100) ''r'' demo_store =
     (Inr (2, Fin 200, Fin 9800),
      save_bets demo_env demo_user (Fin 100) Morning 0 [''12'', ''21'']
        (saveUser (demo_user\<lparr>balance := Fin 9800\<rparr>) demo_store))"
  unfolding api_2d_bet_def
  using demo_bet_100 [where fa = "\<lambda>s. s", OF demo_getUser_alice demo_r_12] by simp

lemma demo_placed_eq:
  "demo_placed =
     \<lparr>users = [(''alice'', (demo_user\<lparr>balance := Fin 9800\<rparr>, 3)), (''root'', (demo_admin, 1))],
      bets = [((''2025-06-01'', ''alice'', ''id-0''),
               \<lparr>b_id = ''id-0'', b_username = ''alice'', b_number = ''12'', b_amount = Fin 100,
                b_date = ''2025-06-01'', b_session = Morning, b_status = Pending,
                b_timestamp = 1748750400000\<rparr>),
              ((''2025-06-01'', ''alice'', ''id-1''),
               \<lparr>b_id = ''id-1'', b_username = ''alice'', b_number = ''21'', b_amount = Fin 100,
                b_date = ''2025-06-01'', b_session = Morning, b_status = Pending,
                b_timestamp = 1748750400001\<rparr>)],
      results = [], version = 5\<rparr>"
  unfolding demo_placed_def demo_bet_r12
  by (simp add: demo_store_eq saveUser_def kv_set_bet_def commit_no_checks demo_user_def
      demo_env_def digit_str_def)

lemma kv_ok_demo_placed: "kv_ok (bets demo_placed)"
  by (simp add: demo_placed_eq kv_ok_def)


lemma demo_settled:
  "process2DWinnings ''2025-06-01'' ''21'' Morning (Fin 80) demo_placed =
     (1, \<lparr>users = [(''alice'', (demo_user\<lparr>balance := Fin 17800\<rparr>, 7)), (''root'', (demo_admin, 1))],
      bets = [((''2025-06-01'', ''alice'', ''id-0''),
               \<lparr>b_id = ''id-0'', b_username = ''alice'', b_number = ''12'', b_amount = Fin 100,
                b_date = ''2025-06-01'', b_session = Morning, b_status = Lose,
                b_timestamp = 1748750400000\<rparr>),
              ((''2025-06-01'', ''alice'', ''id-1''),
               \<lparr>b_id = ''id-1'', b_username = ''alice'', b_number = ''21'', b_amount = Fin 100,
                b_date = ''2025-06-01'', b_session = Morning, b_status = Win,
                b_timestamp = 1748750400001\<rparr>)],
      results = [], version = 7\<rparr>)"
  by (simp add: process2DWinnings_eq sweep_Nil sweep_Cons list_bets_def demo_placed_eq
      settle_entry_def settle_entry_conc_def Let_def
      commit_no_checks getUser_def kv_get_user_def demo_user_def round_double_exact
      is_integer_arith)

lemma demo_orphan_settled:
  "process2DWinnings ''2025-06-01'' ''21'' Morning (Fin 80) demo_orphan =
     (1, \<lparr>users = [(''root'', (demo_admin, 1))],
      bets = [((''2025-06-01'', ''alice'', ''id-0''),
               \<lparr>b_id = ''id-0'', b_username = ''alice'', b_number = ''12'', b_amount = Fin 100,
                b_date = ''2025-06-01'', b_session = Morning, b_status = Lose,
                b_timestamp = 1748750400000\<rparr>),
              ((''2025-06-01'', ''alice'', ''id-1''),
               \<lparr>b_id = ''id-1'', b_username = ''alice'', b_number = ''21'', b_amount = Fin 100,
                b_date = ''2025-06-01'', b_session = Morning, b_status = Win,
                b_timestamp = 1748750400001\<rparr>)],
      results = [], version = 7\<rparr>)"
  by (simp add: process2DWinnings_eq sweep_Nil sweep_Cons list_bets_def demo_orphan_def
      demo_placed_eq settle_entry_def settle_entry_conc_def Let_def commit_no_checks
      getUser_def kv_get_user_def)





lemma round_double_10_stakes: "round_double (10 * stake_100_4) = Fin 1004"
  by code_simp


lemma demo_topup_500:
  "admin_topup ''root'' ''alice'' (Fin 500) demo_store =
     (Inr (Fin 500),
      \<lparr>users = [(''alice'', (demo_user\<lparr>balance := Fin 10500\<rparr>, 3)), (''root'', (demo_admin, 1))],
       bets = [], results = [], version = 3\<rparr>)"
proof -
  have adm: "isAdmin demo_admin" by (simp add: demo_admin_def)
  have v: "valid_topup (Fin 500)" by (simp add: valid_topup_def isNaN_def)
  from topup_ok [where fa = "\<lambda>s. s" and fb = "\<lambda>s. s",
      OF demo_getUser_root adm demo_getUser_alice v]
  show ?thesis
    by (simp add: admin_topup_def commit_no_checks demo_store_eq demo_user_def
        round_double_exact is_integer_arith)
qed

lemma demo_bet_direct_12:
  "api_2d_bet demo_env ''alice'' ''12'' (Fin 100) ''direct'' s0 =
     (Inr (1, Fin 100, Fin 9900),
      save_bets demo_env demo_user (Fin 100) Morning 0 [''12'']
        (saveUser (demo_user\<lparr>balance := Fin 9900\<rparr>) s0))"
  if "getUser s0 ''alice'' = Some demo_user" for s0
  unfolding api_2d_bet_def
  using demo_bet_100 [where fa = "\<lambda>s. s", OF that demo_direct_12] by simp

lemma demo_requests_cost:
  "request_cost (demo_env, '' 12 '', Fin 100, ''r'') = Some 200"
  "request_cost (demo_env, ''55'', Fin 100, ''r'') = Some 100"
  by (simp_all add: request_cost_def demo_session demo_r_12 demo_r_55 is_integer_arith)

text \<open>
  What the program does when the other placement falls between the handler's first
  read of the account and its \<^verbatim>\<open>kv.get\<close>: the \<^verbatim>\<open>check\<close> passes, because it compares with
  the entry just read, and the balance written is computed from the first read. Both
  placements succeed, for 100 and for 1000, and the balance is 9000.
\<close>

lemma lost_update_example:
  "fst (api_2d_bet demo_env ''alice'' ''12'' (Fin 100) ''direct'' demo_store)
     = Inr (1, Fin 100, Fin 9900)
   \<and> fst (api_2d_bet_conc
            (\<lambda>s. snd (api_2d_bet demo_env ''alice'' ''12'' (Fin 100) ''direct'' s)) (\<lambda>s. s)
            demo_env ''alice'' ''7'' (Fin 100) ''head'' demo_store)
       = Inr (10, Fin 1000, Fin 9000)
   \<and> getUser (snd (api_2d_bet_conc
            (\<lambda>s. snd (api_2d_bet demo_env ''alice'' ''12'' (Fin 100) ''direct'' s)) (\<lambda>s. s)
            demo_env ''alice'' ''7'' (Fin 100) ''head'' demo_store)) ''alice''
       = Some (demo_user\<lparr>balance := Fin 9000\<rparr>)"
proof -
  let ?fa = "\<lambda>s. snd (api_2d_bet demo_env ''alice'' ''12'' (Fin 100) ''direct'' s)"
  let ?ns = "[''70'', ''71'', ''72'', ''73'', ''74'', ''75'', ''76'', ''77'', ''78'', ''79'']"
  have run: "api_2d_bet_conc ?fa (\<lambda>s. s) demo_env ''alice'' ''7'' (Fin 100) ''head'' demo_store
     = (Inr (10, Fin 1000, Fin 9000),
        save_bets demo_env demo_user (Fin 100) Morning 0 ?ns
          (saveUser (demo_user\<lparr>balance := Fin 9000\<rparr>) (?fa demo_store)))"
    using demo_bet_100 [where fa = ?fa, OF demo_getUser_alice demo_head_7] by simp
  have g: "getUser (snd (api_2d_bet_conc ?fa (\<lambda>s. s) demo_env ''alice'' ''7'' (Fin 100) ''head''
             demo_store)) ''alice'' = Some (demo_user\<lparr>balance := Fin 9000\<rparr>)"
    unfolding run snd_conv
    by (simp only: getUser_save_bets getUser_saveUser) (simp add: demo_user_def)
  have f: "fst (api_2d_bet_conc ?fa (\<lambda>s. s) demo_env ''alice'' ''7'' (Fin 100) ''head''
             demo_store) = Inr (10, Fin 1000, Fin 9000)"
    unfolding run fst_conv by simp
  have d: "fst (api_2d_bet demo_env ''alice'' ''12'' (Fin 100) ''direct'' demo_store)
             = Inr (1, Fin 100, Fin 9900)"
    unfolding demo_bet_direct_12 [OF demo_getUser_alice] by simp
  from d f g show ?thesis by blast
qed

text \<open>
  Rounding in the bet handler: with 1004 units, a stake of the double nearest to 100.4 on
  the ten numbers of a head costs a little more than 1004, the product of line 665 is
  the double 1004, the test of line 667 passes and the balance written is 0.
\<close>

lemma demo_getUser_1004:
  "getUser demo_store_1004 ''alice'' = Some (demo_user\<lparr>balance := Fin 1004\<rparr>)"
  by (simp add: demo_store_1004_def saveUser_def commit_no_checks empty_store_def
      getUser_def kv_get_user_def demo_user_def demo_admin_def)

lemma demo_bet_rounded:
  "api_2d_bet demo_env ''alice'' ''7'' (Fin stake_100_4) ''head'' demo_store_1004 =
     (Inr (10, Fin 1004, Fin 0),
      save_bets demo_env (demo_user\<lparr>balance := Fin 1004\<rparr>) (Fin stake_100_4) Morning 0
        [''70'', ''71'', ''72'', ''73'', ''74'', ''75'', ''76'', ''77'', ''78'', ''79'']
        (saveUser (demo_user\<lparr>balance := Fin 0\<rparr>) demo_store_1004))"
proof -
  let ?ns = "[''70'', ''71'', ''72'', ''73'', ''74'', ''75'', ''76'', ''77'', ''78'', ''79'']"
  let ?u = "demo_user\<lparr>balance := Fin 1004\<rparr>"
  have v: "valid_stake (Fin stake_100_4)"
    by (simp add: valid_stake_Fin stake_100_4_def)
  have t: "totalCost ?ns (Fin stake_100_4) = Fin 1004"
    by (simp add: totalCost_def round_double_10_stakes)
  have l: "\<not> js_less (balance ?u) (totalCost ?ns (Fin stake_100_4))"
    unfolding t by simp
  have d: "js_sub (Fin 1004) (Fin 1004) = Fin 0"
    by (simp add: js_sub_def round_double_def)
  from bet_ok [where fa = "\<lambda>s. s" and fb = "\<lambda>s. s",
      OF demo_getUser_1004 v demo_session demo_head_7 l]
  show ?thesis
    unfolding api_2d_bet_def t by (simp add: d)
qed

text \<open>
  Amounts that are not finite: \<^verbatim>\<open>Number("Infinity")\<close> passes the tests of lines 560 and
  625. A top-up of \<^verbatim>\<open>Infinity\<close> makes the balance \<^verbatim>\<open>Infinity\<close>, and a bet of \<^verbatim>\<open>Infinity\<close>
  on one number then writes the balance \<^verbatim>\<open>Infinity - Infinity\<close>, which is \<^verbatim>\<open>NaN\<close>.
\<close>

lemma infinite_amounts_example:
  "getUser (snd (admin_topup ''root'' ''alice'' PosInf demo_store)) ''alice''
     = Some (demo_user\<lparr>balance := PosInf\<rparr>)
   \<and> getUser (snd (api_2d_bet demo_env ''alice'' ''12'' PosInf ''direct''
                 (snd (admin_topup ''root'' ''alice'' PosInf demo_store)))) ''alice''
     = Some (demo_user\<lparr>balance := NaN\<rparr>)"
proof -
  have adm: "isAdmin demo_admin" by (simp add: demo_admin_def)
  have v: "valid_topup PosInf" by (simp add: valid_topup_def isNaN_def)
  define s1 where "s1 = snd (admin_topup ''root'' ''alice'' PosInf demo_store)"
  have s1: "s1 = snd (commit [] [SetUser ''alice'' (demo_user\<lparr>balance := PosInf\<rparr>)] demo_store)"
    unfolding s1_def admin_topup_def
    using topup_ok [where fa = "\<lambda>s. s" and fb = "\<lambda>s. s",
        OF demo_getUser_root adm demo_getUser_alice v]
    by (simp add: demo_user_def)
  have g1: "getUser s1 ''alice'' = Some (demo_user\<lparr>balance := PosInf\<rparr>)"
    unfolding s1 by (simp add: commit_no_checks getUser_def kv_get_user_def demo_store_eq)
  have vs: "valid_stake PosInf" by (simp add: valid_stake_def isNaN_def)
  have t: "totalCost [''12''] PosInf = PosInf" by (simp add: totalCost_def)
  have l: "\<not> js_less (balance (demo_user\<lparr>balance := PosInf\<rparr>)) (totalCost [''12''] PosInf)"
    unfolding t by simp
  have d: "js_sub PosInf PosInf = NaN" by (simp add: js_sub_def)
  have run: "api_2d_bet demo_env ''alice'' ''12'' PosInf ''direct'' s1 =
      (Inr (1, PosInf, NaN),
       save_bets demo_env (demo_user\<lparr>balance := PosInf\<rparr>) PosInf Morning 0 [''12'']
         (saveUser (demo_user\<lparr>balance := NaN\<rparr>) s1))"
    using bet_ok [where fa = "\<lambda>s. s" and fb = "\<lambda>s. s", OF g1 vs demo_session demo_direct_12 l]
    unfolding api_2d_bet_def t by (simp add: d)
  have "getUser (snd (api_2d_bet demo_env ''alice'' ''12'' PosInf ''direct'' s1)) ''alice''
          = Some (demo_user\<lparr>balance := NaN\<rparr>)"
    unfolding run snd_conv
    by (simp only: getUser_save_bets getUser_saveUser) (simp add: demo_user_def)
  with g1 show ?thesis unfolding s1_def by simp
qed

text \<open>
  Rounding between placements that run one after the other: three direct bets whose
  stakes are doubles with a fraction and sum to 16384, against a balance of 16384. The
  first difference is rounded down to \<open>16284 - 2^-39\<close>, the balance after the second
  bet is 100, and the third bet, of a little more than 100, is refused.
\<close>

lemma round_double_stakes:
  "round_double stake_a = Fin stake_a"
  "round_double stake_b = Fin stake_b"
  "round_double stake_c = Fin stake_c"
  "round_double (16384 - stake_a) = Fin after_a"
  by code_simp+

lemma demo_direct_bet:
  assumes "getUser s0 ''alice'' = Some (demo_user\<lparr>balance := Fin y\<rparr>)"
    and "100 \<le> x" and "round_double x = Fin x" and "x \<le> y"
  shows "api_2d_bet demo_env ''alice'' ''12'' (Fin x) ''direct'' s0 =
     (Inr (1, Fin x, round_double (y - x)),
      save_bets demo_env (demo_user\<lparr>balance := Fin y\<rparr>) (Fin x) Morning 0 [''12'']
        (saveUser (demo_user\<lparr>balance := round_double (y - x)\<rparr>) s0))"
proof -
  have v: "valid_stake (Fin x)" using assms(2) by (simp add: valid_stake_Fin)
  have t: "totalCost [''12''] (Fin x) = Fin x" by (simp add: totalCost_def assms(3))
  have l: "\<not> js_less (balance (demo_user\<lparr>balance := Fin y\<rparr>)) (totalCost [''12''] (Fin x))"
    unfolding t using assms(4) by simp
  from bet_ok [where fa = "\<lambda>s. s" and fb = "\<lambda>s. s", OF assms(1) v demo_session demo_direct_12 l]
  show ?thesis
    unfolding api_2d_bet_def t by (simp add: js_sub_def)
qed

lemma demo_direct_bet_getUser:
  "getUser (save_bets demo_env (demo_user\<lparr>balance := Fin y\<rparr>) (Fin x) Morning 0 [''12'']
              (saveUser (demo_user\<lparr>balance := z\<rparr>) s0)) ''alice''
     = Some (demo_user\<lparr>balance := z\<rparr>)"
  by (simp only: getUser_save_bets getUser_saveUser) (simp add: demo_user_def)

lemma sequential_rounding_example:
  "stake_a + stake_b + stake_c = 16384
   \<and> getUser demo_store_16384 ''alice'' = Some (demo_user\<lparr>balance := Fin 16384\<rparr>)
   \<and> map (\<lambda>r. case r of Inl err \<Rightarrow> Inl err | Inr x \<Rightarrow> Inr (snd (snd x)))
        (fst (run_bets ''alice''
           [(demo_env, ''12'', Fin stake_a, ''direct''), (demo_env, ''12'', Fin stake_b, ''direct''),
            (demo_env, ''12'', Fin stake_c, ''direct'')] demo_store_16384))
       = [Inr (Fin after_a), Inr (Fin 100), Inl InsufficientFunds]"
proof -
  have g0: "getUser demo_store_16384 ''alice'' = Some (demo_user\<lparr>balance := Fin 16384\<rparr>)"
    by (simp add: demo_store_16384_def saveUser_def commit_no_checks empty_store_def
        getUser_def kv_get_user_def demo_user_def demo_admin_def)
  have sum: "stake_a + stake_b + stake_c = 16384"
    by (simp add: stake_a_def stake_b_def stake_c_def)
  have d2: "round_double (after_a - stake_b) = Fin 100"
    by (simp add: after_a_def stake_b_def round_double_exact is_integer_arith)
  define s1 where "s1 = snd (api_2d_bet demo_env ''alice'' ''12'' (Fin stake_a) ''direct''
                               demo_store_16384)"
  define s2 where "s2 = snd (api_2d_bet demo_env ''alice'' ''12'' (Fin stake_b) ''direct'' s1)"
  have b1: "api_2d_bet demo_env ''alice'' ''12'' (Fin stake_a) ''direct'' demo_store_16384 =
      (Inr (1, Fin stake_a, Fin after_a),
       save_bets demo_env (demo_user\<lparr>balance := Fin 16384\<rparr>) (Fin stake_a) Morning 0 [''12'']
         (saveUser (demo_user\<lparr>balance := Fin after_a\<rparr>) demo_store_16384))"
    using demo_direct_bet [OF g0, of stake_a] round_double_stakes
    by (simp add: stake_a_def)
  have g1: "getUser s1 ''alice'' = Some (demo_user\<lparr>balance := Fin after_a\<rparr>)"
    unfolding s1_def b1 snd_conv by (rule demo_direct_bet_getUser)
  have b2: "api_2d_bet demo_env ''alice'' ''12'' (Fin stake_b) ''direct'' s1 =
      (Inr (1, Fin stake_b, Fin 100),
       save_bets demo_env (demo_user\<lparr>balance := Fin after_a\<rparr>) (Fin stake_b) Morning 0 [''12'']
         (saveUser (demo_user\<lparr>balance := Fin 100\<rparr>) s1))"
    using demo_direct_bet [OF g1, of stake_b] round_double_stakes d2
    by (simp add: stake_b_def after_a_def)
  have g2: "getUser s2 ''alice'' = Some (demo_user\<lparr>balance := Fin 100\<rparr>)"
    unfolding s2_def b2 snd_conv by (rule demo_direct_bet_getUser)
  have v: "valid_stake (Fin stake_c)" by (simp add: valid_stake_Fin stake_c_def)
  have l: "js_less (balance (demo_user\<lparr>balance := Fin 100\<rparr>)) (totalCost [''12''] (Fin stake_c))"
    by (simp add: totalCost_def round_double_stakes) (simp add: stake_c_def)
  have b3: "api_2d_bet demo_env ''alice'' ''12'' (Fin stake_c) ''direct'' s2
              = (Inl InsufficientFunds, s2)"
    unfolding api_2d_bet_def
    by (rule bet_insufficient [OF g2 v demo_session demo_direct_12 l])
  have "fst (run_bets ''alice''
           [(demo_env, ''12'', Fin stake_a, ''direct''), (demo_env, ''12'', Fin stake_b, ''direct''),
            (demo_env, ''12'', Fin stake_c, ''direct'')] demo_store_16384)
       = [fst (api_2d_bet demo_env ''alice'' ''12'' (Fin stake_a) ''direct'' demo_store_16384),
          fst (api_2d_bet demo_env ''alice'' ''12'' (Fin stake_b) ''direct'' s1),
          fst (api_2d_bet demo_env ''alice'' ''12'' (Fin stake_c) ''direct'' s2)]"
    by (simp add: Let_def s1_def s2_def)
  then show ?thesis
    unfolding b1 b2 b3 using sum g0 by simp
qed

section \<open>The claims\<close>




text \<open>
  C2, as the program has it. The handler tests the stake, the hour and the number before
  the funds, and it compares the balance of the account record it read at the start of
  the request with the product in doubles of line 665. A placement by an existing
  account with a valid stake (a number that is not \<^verbatim>\<open>NaN\<close> and is at least 100), made while
  a session is open, for a number that is valid for the bet type, and whose total cost
  so computed exceeds the balance read, is answered with \<open>InsufficientFunds\<close>, and the
  store is the one the handler started from: no debit and no bet record is written,
  whatever other writers do meanwhile.
\<close>

theorem insufficient_funds_rejected:
  assumes "getUser s owner = Some u" and "valid_stake amount"
    and "resolve_session (hour e) = Some sess"
    and "numbersToBet betType (trim rawNumber) = Inr numbers"
    and "js_less (balance u) (totalCost numbers amount)"
  shows "api_2d_bet_conc fa fb e owner rawNumber amount betType s
           = (Inl InsufficientFunds, s)
         \<and> api_2d_bet e owner rawNumber amount betType s = (Inl InsufficientFunds, s)"
  unfolding api_2d_bet_def
  using bet_insufficient [OF assms] by simp

theorem insufficient_funds_rejected_witness:
  "api_2d_bet demo_env ''alice'' '' 12 '' (Fin 6000) ''r'' demo_store
     = (Inl InsufficientFunds, demo_store)"
proof -
  have v: "valid_stake (Fin 6000)" by (simp add: valid_stake_Fin)
  have b: "js_less (balance demo_user) (totalCost [''12'', ''21''] (Fin 6000))"
    by (simp add: demo_user_def totalCost_def round_double_exact is_integer_arith)
  from insufficient_funds_rejected [OF demo_getUser_alice v demo_session demo_r_12 b]
  show ?thesis by simp
qed

text \<open>The claim C2 as written fails in three ways. After both sessions have closed, a
  placement of 20000 units by the player, who has 10000, is answered with
  \<open>MarketClosed\<close>. A placement of 50 units by the administrator, who has none, is
  answered with \<open>ValidationError\<close>. And with 1004 units, a stake of the double nearest to
  100.4 on the ten numbers of a head, which cost more than 1004, is accepted: the
  product of line 665 is rounded to 1004 and the balance written is 0.\<close>

theorem insufficient_funds_not_answered:
  "getUser demo_store ''alice'' = Some demo_user \<and> balance demo_user = Fin 10000
   \<and> api_2d_bet demo_env_closed ''alice'' ''12'' (Fin 20000) ''direct'' demo_store
       = (Inl MarketClosed, demo_store)
   \<and> getUser demo_store ''root'' = Some demo_admin \<and> balance demo_admin = Fin 0
   \<and> api_2d_bet demo_env ''root'' ''12'' (Fin 50) ''direct'' demo_store
       = (Inl ValidationError, demo_store)
   \<and> getUser demo_store_1004 ''alice'' = Some (demo_user\<lparr>balance := Fin 1004\<rparr>)
   \<and> 1004 < 10 * stake_100_4
   \<and> fst (api_2d_bet demo_env ''alice'' ''7'' (Fin stake_100_4) ''head'' demo_store_1004)
       = Inr (10, Fin 1004, Fin 0)"
proof -
  have c: "api_2d_bet demo_env_closed ''alice'' ''12'' (Fin 20000) ''direct'' demo_store
       = (Inl MarketClosed, demo_store)"
    unfolding api_2d_bet_def
    by (rule bet_market_closed [OF demo_getUser_alice])
      (simp_all add: valid_stake_Fin resolve_session_def demo_env_closed_def demo_env_def)
  have v: "api_2d_bet demo_env ''root'' ''12'' (Fin 50) ''direct'' demo_store
       = (Inl ValidationError, demo_store)"
    by (simp add: api_2d_bet_def api_2d_bet_conc_def demo_getUser_root)
  have r: "fst (api_2d_bet demo_env ''alice'' ''7'' (Fin stake_100_4) ''head'' demo_store_1004)
       = Inr (10, Fin 1004, Fin 0)"
    unfolding demo_bet_rounded by simp
  have x: "1004 < 10 * stake_100_4" by (simp add: stake_100_4_def)
  from c v r x demo_getUser_alice demo_getUser_root demo_getUser_1004 show ?thesis
    by (simp add: demo_user_def demo_admin_def)
qed




text \<open>
  C4. After a settlement for (date, session) no bet of that date and session is left
  pending, and a second settlement with the same arguments on the resulting store
  pays nothing (its count is 0) and returns that store unchanged, so every balance is
  unchanged.
\<close>

theorem settlement_leaves_no_pending:
  assumes "kv_ok (bets s)"
  shows "(\<forall>entry \<in> set (bets (snd (process2DWinnings date w sess m s))).
            fst (fst entry) = date \<and> b_session (snd entry) = sess
              \<longrightarrow> b_status (snd entry) \<noteq> Pending)
         \<and> process2DWinnings date w sess m (snd (process2DWinnings date w sess m s))
             = (0, snd (process2DWinnings date w sess m s))"
proof
  show "\<forall>entry \<in> set (bets (snd (process2DWinnings date w sess m s))).
            fst (fst entry) = date \<and> b_session (snd entry) = sess
              \<longrightarrow> b_status (snd entry) \<noteq> Pending"
  proof (intro ballI impI)
    fix entry
    assume mem: "entry \<in> set (bets (snd (process2DWinnings date w sess m s)))"
      and key: "fst (fst entry) = date \<and> b_session (snd entry) = sess"
    from mem key have "entry \<in> set (list_bets date (snd (process2DWinnings date w sess m s)))"
      by (simp add: list_bets_def)
    with no_pending_after [OF assms, of date w sess m] key
    show "b_status (snd entry) \<noteq> Pending" by blast
  qed
  show "process2DWinnings date w sess m (snd (process2DWinnings date w sess m s))
             = (0, snd (process2DWinnings date w sess m s))"
    by (rule process2DWinnings_again [OF assms])
qed

theorem settlement_leaves_no_pending_witness:
  "kv_ok (bets demo_placed)
   \<and> map (\<lambda>entry. b_status (snd entry))
        (bets (snd (process2DWinnings ''2025-06-01'' ''21'' Morning (Fin 80) demo_placed)))
       = [Lose, Win]
   \<and> process2DWinnings ''2025-06-01'' ''21'' Morning (Fin 80)
        (snd (process2DWinnings ''2025-06-01'' ''21'' Morning (Fin 80) demo_placed))
       = (0, snd (process2DWinnings ''2025-06-01'' ''21'' Morning (Fin 80) demo_placed))"
  using settlement_leaves_no_pending [OF kv_ok_demo_placed, of "''2025-06-01''" "''21''" Morning
      "Fin 80"]
    kv_ok_demo_placed
  by (simp add: demo_settled)

text \<open>
  C5, as the program has it. Expansion yields the canonical numbers: for \<^verbatim>\<open>double\<close>, the
  ten doubles whatever the input; for \<^verbatim>\<open>head\<close> and \<^verbatim>\<open>tail\<close> on a digit \<open>d\<close>, the numbers
  \<open>d0..d9\<close> and \<open>0d..9d\<close>; for \<^verbatim>\<open>direct\<close> on two digits, that number; for \<^verbatim>\<open>r\<close> on two
  digits, the number and its reversal, once only when the two digits are equal; an
  unknown bet type is a validation error. When a placement succeeds, the cost charged
  is the product in doubles of the number of distinct expanded numbers and the stake,
  and the balance stored for the user is the balance read minus that cost, in doubles.
  The cost is the exact product, and the new balance the exact difference, when the
  stake and the balance read are integers, the balance at most \<open>2^53\<close> and the exact
  product at most \<open>2^53\<close>.
\<close>

theorem expansion_and_total_cost:
  "numbersToBet ''double'' raw =
     Inr [''00'', ''11'', ''22'', ''33'', ''44'', ''55'', ''66'', ''77'', ''88'', ''99'']
   \<and> (is_digit d \<longrightarrow>
        numbersToBet ''head'' [d] = Inr (map (\<lambda>c. [d, c]) ''0123456789'')
        \<and> numbersToBet ''tail'' [d] = Inr (map (\<lambda>c. [c, d]) ''0123456789''))
   \<and> (is_digit a \<and> is_digit b \<longrightarrow>
        numbersToBet ''direct'' [a, b] = Inr [[a, b]]
        \<and> numbersToBet ''r'' [a, b] = Inr (if a = b then [[a, b]] else [[a, b], [b, a]]))
   \<and> (betType \<notin> {''double'', ''head'', ''tail'', ''r'', ''direct''} \<longrightarrow>
        numbersToBet betType raw = Inl ValidationError)
   \<and> (api_2d_bet e owner rawNumber amount ty s = (Inr (n, cost, nb), s') \<longrightarrow>
        (\<exists>u ns. getUser s owner = Some u
           \<and> numbersToBet ty (trim rawNumber) = Inr ns
           \<and> n = card (set ns)
           \<and> cost = js_mul (Fin (of_nat (card (set ns)))) amount
           \<and> getUser s' (username u) = Some (u\<lparr>balance := js_sub (balance u) cost\<rparr>)
           \<and> (\<forall>x y. amount = Fin x \<and> is_integer x \<and> balance u = Fin y \<and> is_integer y
                  \<and> y \<le> 2 ^ 53 \<and> of_nat (card (set ns)) * x \<le> 2 ^ 53 \<longrightarrow>
                cost = Fin (of_nat (card (set ns)) * x)
                \<and> js_sub (balance u) cost = Fin (y - of_nat (card (set ns)) * x))))"
proof (intro conjI impI)
  assume run: "api_2d_bet e owner rawNumber amount ty s = (Inr (n, cost, nb), s')"
  then obtain u sess ns where u: "getUser s owner = Some u"
    and v: "valid_stake amount"
    and ns: "numbersToBet ty (trim rawNumber) = Inr ns"
    and n: "n = length ns" and cost: "cost = totalCost ns amount"
    and nl: "\<not> js_less (balance u) cost"
    and s': "s' = save_bets e u amount sess 0 ns (saveUser (u\<lparr>balance := js_sub (balance u) cost\<rparr>) s)"
    unfolding api_2d_bet_def using bet_success_D [of "\<lambda>s. s" "\<lambda>s. s"] by blast
  have card: "card (set ns) = length ns"
    using numbersToBet_distinct [OF ns] by (rule distinct_card)
  have g: "getUser s' (username u) = Some (u\<lparr>balance := js_sub (balance u) cost\<rparr>)"
    unfolding s' by (simp add: getUser_save_bets getUser_saveUser)
  have c: "cost = js_mul (Fin (of_nat (card (set ns)))) amount"
    unfolding card cost totalCost_def ..
  have ex: "cost = Fin (of_nat (card (set ns)) * x)
            \<and> js_sub (balance u) cost = Fin (y - of_nat (card (set ns)) * x)"
    if h: "amount = Fin x \<and> is_integer x \<and> balance u = Fin y \<and> is_integer y
            \<and> y \<le> 2 ^ 53 \<and> of_nat (card (set ns)) * x \<le> 2 ^ 53" for x y
  proof -
    from h have x: "amount = Fin x" "is_integer x" and y: "balance u = Fin y" "is_integer y"
      "y \<le> 2 ^ 53" and p: "of_nat (length ns) * x \<le> 2 ^ 53"
      by (simp_all add: card)
    from v have x100: "100 \<le> x" by (simp add: x(1) valid_stake_Fin)
    then have x0: "0 \<le> x" by simp
    have p0: "0 \<le> of_nat (length ns) * x" using x0 by simp
    have "js_mul (Fin (of_nat (length ns))) (Fin x) = Fin (of_nat (length ns) * x)"
      using x(2) p p0 by (intro js_mul_exact) (simp_all add: is_integer_arith)
    then have c1: "cost = Fin (of_nat (length ns) * x)"
      by (simp only: cost totalCost_def x(1))
    from nl have le: "of_nat (length ns) * x \<le> y" by (simp add: c1 y(1))
    have "js_sub (Fin y) (Fin (of_nat (length ns) * x)) = Fin (y - of_nat (length ns) * x)"
      using y(2,3) x(2) p0 le by (intro js_sub_exact) (simp_all add: is_integer_arith)
    with c1 show ?thesis by (simp only: card y(1) simp_thms)
  qed
  from ex have all: "\<forall>x y. amount = Fin x \<and> is_integer x \<and> balance u = Fin y \<and> is_integer y
                  \<and> y \<le> 2 ^ 53 \<and> of_nat (card (set ns)) * x \<le> 2 ^ 53 \<longrightarrow>
                cost = Fin (of_nat (card (set ns)) * x)
                \<and> js_sub (balance u) cost = Fin (y - of_nat (card (set ns)) * x)"
    by blast
  have nc: "n = card (set ns)" using n card by simp
  from u ns nc c g all
  show "\<exists>u ns. getUser s owner = Some u
           \<and> numbersToBet ty (trim rawNumber) = Inr ns
           \<and> n = card (set ns)
           \<and> cost = js_mul (Fin (of_nat (card (set ns)))) amount
           \<and> getUser s' (username u) = Some (u\<lparr>balance := js_sub (balance u) cost\<rparr>)
           \<and> (\<forall>x y. amount = Fin x \<and> is_integer x \<and> balance u = Fin y \<and> is_integer y
                  \<and> y \<le> 2 ^ 53 \<and> of_nat (card (set ns)) * x \<le> 2 ^ 53 \<longrightarrow>
                cost = Fin (of_nat (card (set ns)) * x)
                \<and> js_sub (balance u) cost = Fin (y - of_nat (card (set ns)) * x))"
    by (intro exI [of _ u] exI [of _ ns] conjI)
qed (simp_all add: double_form head_form tail_form direct_form r_form unknown_form)

theorem expansion_and_total_cost_witness:
  "numbersToBet ''head'' ''7'' =
     Inr [''70'', ''71'', ''72'', ''73'', ''74'', ''75'', ''76'', ''77'', ''78'', ''79'']
   \<and> numbersToBet ''tail'' ''7'' =
     Inr [''07'', ''17'', ''27'', ''37'', ''47'', ''57'', ''67'', ''77'', ''87'', ''97'']
   \<and> numbersToBet ''direct'' ''12'' = Inr [''12'']
   \<and> numbersToBet ''r'' ''12'' = Inr [''12'', ''21'']
   \<and> numbersToBet ''r'' ''55'' = Inr [''55'']
   \<and> numbersToBet ''triple'' ''12'' = Inl ValidationError
   \<and> getUser (snd (api_2d_bet demo_env ''alice'' ''55'' (Fin 100) ''r'' demo_store)) ''alice''
       = Some (demo_user\<lparr>balance := Fin 9900\<rparr>)"
proof -
  have d: "is_digit CHR ''7''" "is_digit CHR ''1''" "is_digit CHR ''2''" "is_digit CHR ''5''"
    by (simp_all add: is_digit_def)
  have u: "''triple'' \<notin> {''double'', ''head'', ''tail'', ''r'', ''direct''}" by simp
  note t1 = expansion_and_total_cost [of "''12''" "CHR ''7''" "CHR ''1''" "CHR ''2''" "''triple''"
      demo_env "''alice''" "''55''" "Fin 100" "''r''" demo_store 1 "Fin 100" "Fin 9900"
      "snd (api_2d_bet demo_env ''alice'' ''55'' (Fin 100) ''r'' demo_store)"]
  note t2 = expansion_and_total_cost [of "''12''" "CHR ''7''" "CHR ''5''" "CHR ''5''" "''triple''"
      demo_env "''alice''" "''55''" "Fin 100" "''r''" demo_store 1 "Fin 100" "Fin 9900"
      "snd (api_2d_bet demo_env ''alice'' ''55'' (Fin 100) ''r'' demo_store)"]
  have run: "api_2d_bet demo_env ''alice'' ''55'' (Fin 100) ''r'' demo_store =
    (Inr (1, Fin 100, Fin 9900), snd (api_2d_bet demo_env ''alice'' ''55'' (Fin 100) ''r'' demo_store))"
    by (simp add: demo_bet_r55)
  from t1 d u have p1: "numbersToBet ''head'' ''7'' =
     Inr [''70'', ''71'', ''72'', ''73'', ''74'', ''75'', ''76'', ''77'', ''78'', ''79'']"
    "numbersToBet ''tail'' ''7'' =
     Inr [''07'', ''17'', ''27'', ''37'', ''47'', ''57'', ''67'', ''77'', ''87'', ''97'']"
    "numbersToBet ''direct'' ''12'' = Inr [''12'']"
    "numbersToBet ''r'' ''12'' = Inr [''12'', ''21'']"
    "numbersToBet ''triple'' ''12'' = Inl ValidationError"
    by simp_all
  from t2 d have p2: "numbersToBet ''r'' ''55'' = Inr [''55'']" by simp
  from t2 run demo_getUser_alice obtain u0 ns0 where
    w: "Some demo_user = Some u0" "numbersToBet ''r'' (trim ''55'') = Inr ns0"
      "getUser (snd (api_2d_bet demo_env ''alice'' ''55'' (Fin 100) ''r'' demo_store)) (username u0)
         = Some (u0\<lparr>balance := js_sub (balance u0) (Fin 100)\<rparr>)"
      "\<forall>x y. Fin 100 = Fin x \<and> is_integer x \<and> balance u0 = Fin y \<and> is_integer y
                  \<and> y \<le> 2 ^ 53 \<and> of_nat (card (set ns0)) * x \<le> 2 ^ 53 \<longrightarrow>
                Fin 100 = Fin (of_nat (card (set ns0)) * x)
                \<and> js_sub (balance u0) (Fin 100) = Fin (y - of_nat (card (set ns0)) * x)"
    by auto
  from w(1) have u0: "u0 = demo_user" by simp
  from w(2) have ns0: "ns0 = [''55'']" by (simp add: demo_r_55)
  from w(4) [rule_format, of 100 10000]
  have "js_sub (Fin 10000) (Fin 100) = Fin 9900"
    by (simp add: u0 ns0 demo_user_def is_integer_arith)
  with w(3) have p3:
    "getUser (snd (api_2d_bet demo_env ''alice'' ''55'' (Fin 100) ''r'' demo_store)) ''alice''
       = Some (demo_user\<lparr>balance := Fin 9900\<rparr>)"
    by (simp add: u0 demo_user_def del: js_add.simps)
  from p1 p2 p3 show ?thesis by simp
qed

text \<open>The claim C5 as written fails on the cost: with 1004 units, a stake of the double
  nearest to 100.4 on the ten numbers of a head is charged 1004, which is less than ten
  times the stake, and the ten records carry the stake.\<close>

theorem cost_not_exact_product:
  "api_2d_bet demo_env ''alice'' ''7'' (Fin stake_100_4) ''head'' demo_store_1004 =
     (Inr (10, Fin 1004, Fin 0),
      save_bets demo_env (demo_user\<lparr>balance := Fin 1004\<rparr>) (Fin stake_100_4) Morning 0
        [''70'', ''71'', ''72'', ''73'', ''74'', ''75'', ''76'', ''77'', ''78'', ''79'']
        (saveUser (demo_user\<lparr>balance := Fin 0\<rparr>) demo_store_1004))
   \<and> 10 * stake_100_4 \<noteq> 1004"
  by (simp add: demo_bet_rounded) (simp add: stake_100_4_def)

text \<open>
  C6, as the program has it. When the handler answers with an error it has written
  nothing: the store is the one it started from, or the one the other writers made.
  When it succeeds, the store is the one the other writers made, with the debit
  committed first and the bets saved after it: the bets table has exactly the keys it
  had plus one key per expanded number, every other entry is unchanged, and when the
  identifiers drawn are pairwise different the \<open>i\<close>-th number has the record
  \<open>placed_bet\<close>: status pending, the identifier of the \<open>i\<close>-th draw, the stake,
  the date and the session of the request, and as timestamp the \<open>i\<close>-th reading of the
  clock. With identifiers that are also new to the table, the table grows by exactly
  one record per number.
\<close>

theorem bets_saved_after_debit:
  "(isl (fst (api_2d_bet_conc fa fb e owner rawNumber amount betType s)) \<longrightarrow>
      snd (api_2d_bet_conc fa fb e owner rawNumber amount betType s) = s
      \<or> snd (api_2d_bet_conc fa fb e owner rawNumber amount betType s) = fb (fa s))
   \<and> (api_2d_bet_conc fa fb e owner rawNumber amount betType s = (Inr (n, cost, nb), s') \<longrightarrow>
      (\<exists>u sess numbers.
          getUser s owner = Some u \<and> valid_stake amount
          \<and> resolve_session (hour e) = Some sess
          \<and> numbersToBet betType (trim rawNumber) = Inr numbers \<and> n = length numbers
          \<and> s' = save_bets e u amount sess 0 numbers
                    (saveUser (u\<lparr>balance := js_sub (balance u) cost\<rparr>) (fb (fa s)))
          \<and> getUser s' (username u) = Some (u\<lparr>balance := js_sub (balance u) cost\<rparr>)
          \<and> fst ` set (bets s') = fst ` set (bets (fb (fa s))) \<union> placed_key e u ` {..<n}
          \<and> (\<forall>k. k \<notin> placed_key e u ` {..<n} \<longrightarrow> map_of (bets s') k = map_of (bets (fb (fa s))) k)
          \<and> (inj_on (randomUUID e) {..<n} \<longrightarrow>
               (\<forall>i<n. map_of (bets s') (placed_key e u i)
                         = Some (placed_bet e u amount sess i (numbers ! i))))
          \<and> (inj_on (randomUUID e) {..<n} \<and> kv_ok (bets (fb (fa s)))
               \<and> (\<forall>i<n. placed_key e u i \<notin> fst ` set (bets (fb (fa s)))) \<longrightarrow>
               length (bets s') = length (bets (fb (fa s))) + n)))"
proof (intro conjI impI)
  assume "isl (fst (api_2d_bet_conc fa fb e owner rawNumber amount betType s))"
  then show "snd (api_2d_bet_conc fa fb e owner rawNumber amount betType s) = s
      \<or> snd (api_2d_bet_conc fa fb e owner rawNumber amount betType s) = fb (fa s)"
    by (rule bet_error_D)
next
  assume run: "api_2d_bet_conc fa fb e owner rawNumber amount betType s = (Inr (n, cost, nb), s')"
  from bet_success_D [OF run] obtain u sess numbers
    where u: "getUser s owner = Some u" and a: "valid_stake amount"
      and se: "resolve_session (hour e) = Some sess"
      and ns: "numbersToBet betType (trim rawNumber) = Inr numbers"
      and n: "n = length numbers"
      and s': "s' = save_bets e u amount sess 0 numbers
                      (saveUser (u\<lparr>balance := js_sub (balance u) cost\<rparr>) (fb (fa s)))"
    by blast
  let ?s2 = "saveUser (u\<lparr>balance := js_sub (balance u) cost\<rparr>) (fb (fa s))"
  have b2: "bets ?s2 = bets (fb (fa s))" by (simp add: saveUser_simps)
  have iv: "{0 ..< 0 + length numbers} = {..<n}" using n by auto
  have g: "getUser s' (username u) = Some (u\<lparr>balance := js_sub (balance u) cost\<rparr>)"
    unfolding s' by (simp add: getUser_save_bets getUser_saveUser)
  have keys: "fst ` set (bets s') = fst ` set (bets (fb (fa s))) \<union> placed_key e u ` {..<n}"
    unfolding s' keys_save_bets iv b2 ..
  have other: "\<forall>k. k \<notin> placed_key e u ` {..<n} \<longrightarrow> map_of (bets s') k = map_of (bets (fb (fa s))) k"
  proof (intro allI impI)
    fix k assume "k \<notin> placed_key e u ` {..<n}"
    then have "\<forall>j < length numbers. k \<noteq> placed_key e u (0 + j)" using n by auto
    from save_bets_other [OF this] show "map_of (bets s') k = map_of (bets (fb (fa s))) k"
      unfolding s' by (simp add: b2)
  qed
  have at: "inj_on (randomUUID e) {..<n} \<longrightarrow>
               (\<forall>i<n. map_of (bets s') (placed_key e u i)
                         = Some (placed_bet e u amount sess i (numbers ! i)))"
  proof (intro impI allI)
    fix i assume inj: "inj_on (randomUUID e) {..<n}" and i: "i < n"
    from inj have inj': "inj_on (randomUUID e) {0 ..< 0 + length numbers}" unfolding iv .
    from i n have "i < length numbers" by simp
    from save_bets_at [OF inj' this, of u amount sess ?s2]
    show "map_of (bets s') (placed_key e u i) = Some (placed_bet e u amount sess i (numbers ! i))"
      unfolding s' by simp
  qed
  have len: "inj_on (randomUUID e) {..<n} \<and> kv_ok (bets (fb (fa s)))
               \<and> (\<forall>i<n. placed_key e u i \<notin> fst ` set (bets (fb (fa s)))) \<longrightarrow>
               length (bets s') = length (bets (fb (fa s))) + n"
  proof
    assume h: "inj_on (randomUUID e) {..<n} \<and> kv_ok (bets (fb (fa s)))
               \<and> (\<forall>i<n. placed_key e u i \<notin> fst ` set (bets (fb (fa s))))"
    then have inj': "inj_on (randomUUID e) {0 ..< 0 + length numbers}" unfolding iv by simp
    from h have ok: "kv_ok (bets ?s2)" by (simp add: b2)
    from h n have fresh: "\<forall>j < length numbers. placed_key e u (0 + j) \<notin> fst ` set (bets ?s2)"
      by (simp add: b2)
    from length_save_bets [OF ok inj' fresh, of amount sess]
    show "length (bets s') = length (bets (fb (fa s))) + n"
      unfolding s' using n by (simp add: b2)
  qed
  from u a se ns n s' g keys other at len
  show "\<exists>u sess numbers.
          getUser s owner = Some u \<and> valid_stake amount
          \<and> resolve_session (hour e) = Some sess
          \<and> numbersToBet betType (trim rawNumber) = Inr numbers \<and> n = length numbers
          \<and> s' = save_bets e u amount sess 0 numbers
                    (saveUser (u\<lparr>balance := js_sub (balance u) cost\<rparr>) (fb (fa s)))
          \<and> getUser s' (username u) = Some (u\<lparr>balance := js_sub (balance u) cost\<rparr>)
          \<and> fst ` set (bets s') = fst ` set (bets (fb (fa s))) \<union> placed_key e u ` {..<n}
          \<and> (\<forall>k. k \<notin> placed_key e u ` {..<n} \<longrightarrow> map_of (bets s') k = map_of (bets (fb (fa s))) k)
          \<and> (inj_on (randomUUID e) {..<n} \<longrightarrow>
               (\<forall>i<n. map_of (bets s') (placed_key e u i)
                         = Some (placed_bet e u amount sess i (numbers ! i))))
          \<and> (inj_on (randomUUID e) {..<n} \<and> kv_ok (bets (fb (fa s)))
               \<and> (\<forall>i<n. placed_key e u i \<notin> fst ` set (bets (fb (fa s)))) \<longrightarrow>
               length (bets s') = length (bets (fb (fa s))) + n)"
    by blast
qed

theorem bets_saved_after_debit_witness:
  "api_2d_bet demo_env ''alice'' '' 12 '' (Fin 100) ''r'' demo_store
     = (Inr (2, Fin 200, Fin 9800), demo_placed)
   \<and> inj_on (randomUUID demo_env) {..<2}
   \<and> getUser demo_placed ''alice'' = Some (demo_user\<lparr>balance := Fin 9800\<rparr>)
   \<and> fst ` set (bets demo_placed)
       = {(''2025-06-01'', ''alice'', ''id-0''), (''2025-06-01'', ''alice'', ''id-1'')}
   \<and> length (bets demo_placed) = 2"
proof -
  have run: "api_2d_bet_conc (\<lambda>s. s) (\<lambda>s. s) demo_env ''alice'' '' 12 '' (Fin 100) ''r'' demo_store
     = (Inr (2, Fin 200, Fin 9800), demo_placed)"
    using demo_bet_r12 by (simp add: demo_placed_def api_2d_bet_def)
  have two: "{..<2::nat} = {0, 1}" by auto
  have inj: "inj_on (randomUUID demo_env) {..<2}"
    unfolding two by (simp add: demo_env_def digit_str_def)
  have ok: "kv_ok (bets demo_store)" by (simp add: demo_store_eq kv_ok_def)
  have fresh: "\<forall>i<2. placed_key demo_env demo_user i \<notin> fst ` set (bets demo_store)"
    by (simp add: demo_store_eq)
  have d: "js_sub (Fin 10000) (Fin 200) = Fin 9800"
    by (simp add: js_sub_def round_double_exact is_integer_arith)
  from bets_saved_after_debit [of "\<lambda>s. s" "\<lambda>s. s" demo_env "''alice''" "'' 12 ''" "Fin 100"
      "''r''" demo_store 2 "Fin 200" "Fin 9800" demo_placed] run demo_getUser_alice inj ok fresh
  have "getUser demo_placed ''alice'' = Some (demo_user\<lparr>balance := Fin 9800\<rparr>)"
    and "fst ` set (bets demo_placed)
           = fst ` set (bets demo_store) \<union> placed_key demo_env demo_user ` {..<2}"
    and "length (bets demo_placed) = length (bets demo_store) + 2"
    by (auto simp: demo_user_def d)
  with run inj show ?thesis
    unfolding two
    by (simp add: api_2d_bet_def demo_store_eq placed_key_def demo_env_def demo_user_def
        digit_str_def insert_commute)
qed

text \<open>The claim C6 as written fails on the timestamp: the two records of one placement
  carry two readings of the clock, one millisecond apart in the example.\<close>

theorem placement_timestamps_differ:
  "map (\<lambda>entry. (b_number (snd entry), b_timestamp (snd entry)))
     (bets (snd (api_2d_bet demo_env ''alice'' '' 12 '' (Fin 100) ''r'' demo_store)))
     = [(''12'', 1748750400000), (''21'', 1748750400001)]"
  using demo_placed_eq by (simp add: demo_placed_def)

text \<open>
  C7, as the program has it. Both handlers attempt the conditional write once. When
  the versionstamp of the account at the \<^verbatim>\<open>commit\<close> differs from the one their
  \<^verbatim>\<open>kv.get\<close> returned just before, they answer with the conflict at once: nothing is
  re-read, nothing is recomputed, and the store is as the other writers left it.
\<close>

theorem conflict_surfaced_at_once:
  "(getUser s owner = Some u \<and> valid_stake amount \<and> resolve_session (hour e) = Some sess
      \<and> numbersToBet betType (trim rawNumber) = Inr numbers
      \<and> \<not> js_less (balance u) (totalCost numbers amount)
      \<and> snd (kv_get_user (fb (fa s)) (username u)) \<noteq> snd (kv_get_user (fa s) (username u))
    \<longrightarrow> api_2d_bet_conc fa fb e owner rawNumber amount betType s
          = (Inl ConcurrencyConflict, fb (fa s)))
   \<and> (getUser s caller = Some a \<and> isAdmin a \<and> getUser s target = Some t \<and> valid_topup amount'
      \<and> snd (kv_get_user (fb (fa s)) target) \<noteq> snd (kv_get_user (fa s) target)
    \<longrightarrow> admin_topup_conc fa fb caller target amount' s
          = (Inl ConcurrencyConflict, fb (fa s)))"
  using bet_conflict [of s owner u amount e sess betType rawNumber numbers fb fa]
    topup_conflict [of s caller a target t amount' fb fa]
  by blast

theorem conflict_surfaced_at_once_witness:
  "api_2d_bet_conc (\<lambda>s. s) (\<lambda>s. snd (admin_topup ''root'' ''alice'' (Fin 500) s))
     demo_env ''alice'' ''12'' (Fin 100) ''direct'' demo_store
     = (Inl ConcurrencyConflict, snd (admin_topup ''root'' ''alice'' (Fin 500) demo_store))
   \<and> admin_topup_conc (\<lambda>s. s) (\<lambda>s. snd (admin_topup ''root'' ''alice'' (Fin 500) s))
     ''root'' ''alice'' (Fin 20) demo_store
     = (Inl ConcurrencyConflict, snd (admin_topup ''root'' ''alice'' (Fin 500) demo_store))"
proof -
  let ?fb = "\<lambda>s. snd (admin_topup ''root'' ''alice'' (Fin 500) s)"
  have b: "\<not> js_less (balance demo_user) (totalCost [''12''] (Fin 100))"
    by (simp add: demo_user_def totalCost_def round_double_exact is_integer_arith)
  have v: "snd (kv_get_user (?fb demo_store) ''alice'') \<noteq> snd (kv_get_user demo_store ''alice'')"
    by (simp add: demo_topup_500) (simp add: demo_store_eq kv_get_user_def)
  have adm: "isAdmin demo_admin" by (simp add: demo_admin_def)
  have n: "username demo_user = ''alice''" by (simp add: demo_user_def)
  have vt: "valid_topup (Fin 20)" by (simp add: valid_topup_def isNaN_def)
  from conflict_surfaced_at_once [of demo_store "''alice''" demo_user "Fin 100" demo_env Morning
      "''direct''" "''12''" "[''12'']" ?fb "\<lambda>s. s" "''root''" demo_admin "''alice''" demo_user
      "Fin 20"]
    demo_getUser_alice demo_getUser_root demo_session demo_direct_12 b v adm n vt valid_stake_100
  show ?thesis by simp
qed

text \<open>The claim C7 as written fails: one top-up lands between the bet handler's
  \<^verbatim>\<open>kv.get\<close> and its \<^verbatim>\<open>commit\<close>; the handler answers with the conflict, although the same
  request run again on the store the top-up left succeeds.\<close>

theorem conflict_not_retried:
  "api_2d_bet_conc (\<lambda>s. s) (\<lambda>s. snd (admin_topup ''root'' ''alice'' (Fin 500) s))
     demo_env ''alice'' ''12'' (Fin 100) ''direct'' demo_store
     = (Inl ConcurrencyConflict, snd (admin_topup ''root'' ''alice'' (Fin 500) demo_store))
   \<and> fst (api_2d_bet demo_env ''alice'' ''12'' (Fin 100) ''direct''
            (snd (admin_topup ''root'' ''alice'' (Fin 500) demo_store)))
     = Inr (1, Fin 100, Fin 10400)"
proof -
  let ?fb = "\<lambda>s. snd (admin_topup ''root'' ''alice'' (Fin 500) s)"
  have b: "\<not> js_less (balance demo_user) (totalCost [''12''] (Fin 100))"
    by (simp add: demo_user_def totalCost_def round_double_exact is_integer_arith)
  have v: "snd (kv_get_user (?fb demo_store) (username demo_user))
             \<noteq> snd (kv_get_user demo_store (username demo_user))"
    by (simp add: demo_topup_500) (simp add: demo_store_eq kv_get_user_def demo_user_def)
  have one: "api_2d_bet_conc (\<lambda>s. s) ?fb demo_env ''alice'' ''12'' (Fin 100) ''direct'' demo_store
     = (Inl ConcurrencyConflict, ?fb demo_store)"
    by (rule bet_conflict [where fa = "\<lambda>s. s" and fb = ?fb,
          OF demo_getUser_alice valid_stake_100 demo_session demo_direct_12 b v])
  have g: "getUser (?fb demo_store) ''alice'' = Some (demo_user\<lparr>balance := Fin 10500\<rparr>)"
    by (simp add: demo_topup_500) (simp add: getUser_def kv_get_user_def)
  have t: "totalCost [''12''] (Fin 100) = Fin 100"
    by (simp add: totalCost_def round_double_exact is_integer_arith)
  have b': "\<not> js_less (balance (demo_user\<lparr>balance := Fin 10500\<rparr>)) (totalCost [''12''] (Fin 100))"
    unfolding t by simp
  have d: "js_sub (Fin 10500) (Fin 100) = Fin 10400"
    by (simp add: js_sub_def round_double_exact is_integer_arith)
  from bet_ok [where fa = "\<lambda>s. s" and fb = "\<lambda>s. s",
      OF g valid_stake_100 demo_session demo_direct_12 b']
  have two: "fst (api_2d_bet demo_env ''alice'' ''12'' (Fin 100) ''direct'' (?fb demo_store))
     = Inr (1, Fin 100, Fin 10400)"
    unfolding api_2d_bet_def t by (simp add: d)
  from one two show ?thesis by simp
qed

text \<open>
  C8, as the program has it. Placements by one account that run one after the other
  (each returns before the next one reads the account), each passing the checks, with
  integer stakes, a starting balance that is an integer of at most \<open>2^53\<close> and a
  combined cost of at most the starting balance, all succeed, and the final balance is
  the starting balance minus the sum of their costs. On these amounts the arithmetic
  of doubles is exact; with stakes that have a fraction the balances in between are
  rounded, and a later placement can be refused although the exact costs add up to the
  starting balance, as in the example of three stakes above.
\<close>

theorem sequential_bets_all_debited:
  assumes "getUser s owner = Some u" and "username u = owner"
    and "balance u = Fin b" and "is_integer b" and "b \<le> 2 ^ 53"
    and "\<forall>r \<in> set reqs. request_cost r \<noteq> None"
    and "total_cost reqs \<le> b"
  shows "list_all (\<lambda>r. \<not> isl r) (fst (run_bets owner reqs s))
         \<and> length (fst (run_bets owner reqs s)) = length reqs
         \<and> getUser (snd (run_bets owner reqs s)) owner
             = Some (u\<lparr>balance := Fin (b - total_cost reqs)\<rparr>)"
  using assms by (rule run_bets_all_succeed)

theorem sequential_bets_all_debited_witness:
  "getUser (snd (run_bets ''alice''
             [(demo_env, '' 12 '', Fin 100, ''r''), (demo_env, ''55'', Fin 100, ''r'')]
             demo_store)) ''alice''
     = Some (demo_user\<lparr>balance := Fin 9700\<rparr>)
   \<and> length (fst (run_bets ''alice''
             [(demo_env, '' 12 '', Fin 100, ''r''), (demo_env, ''55'', Fin 100, ''r'')]
             demo_store)) = 2"
proof -
  let ?reqs = "[(demo_env, '' 12 '', Fin 100, ''r''), (demo_env, ''55'', Fin 100, ''r'')]"
  have n: "username demo_user = ''alice''" by (simp add: demo_user_def)
  have b: "balance demo_user = Fin 10000" by (simp add: demo_user_def)
  have i: "is_integer 10000" "(10000 :: rat) \<le> 2 ^ 53" by (simp_all add: is_integer_arith)
  have v: "\<forall>r \<in> set ?reqs. request_cost r \<noteq> None"
    by (simp add: demo_requests_cost)
  have t: "total_cost ?reqs = 300"
    by (simp add: total_cost_def demo_requests_cost)
  have le: "total_cost ?reqs \<le> 10000"
    unfolding t by simp
  from sequential_bets_all_debited [OF demo_getUser_alice n b i v le] t
  show ?thesis by (simp add: demo_user_def)
qed

text \<open>The claim C8 as written fails: of two overlapping placements of one account with
  a combined cost of 1100 against a balance of 10000, the one whose \<^verbatim>\<open>commit\<close> comes
  second is answered with the conflict.\<close>

theorem overlapping_bets_conflict:
  "fst (api_2d_bet demo_env ''alice'' ''12'' (Fin 100) ''direct'' demo_store)
     = Inr (1, Fin 100, Fin 9900)
   \<and> fst (api_2d_bet_conc (\<lambda>s. s)
            (\<lambda>s. snd (api_2d_bet demo_env ''alice'' ''12'' (Fin 100) ''direct'' s))
            demo_env ''alice'' ''7'' (Fin 100) ''head'' demo_store)
       = Inl ConcurrencyConflict"
proof -
  let ?fb = "\<lambda>s. snd (api_2d_bet demo_env ''alice'' ''12'' (Fin 100) ''direct'' s)"
  let ?ns = "[''70'', ''71'', ''72'', ''73'', ''74'', ''75'', ''76'', ''77'', ''78'', ''79'']"
  have b: "\<not> js_less (balance demo_user) (totalCost ?ns (Fin 100))"
    by (simp add: demo_user_def totalCost_def round_double_exact is_integer_arith)
  have "kv_get_user (?fb demo_store) (username (demo_user\<lparr>balance := Fin 9900\<rparr>))
          = (Some (demo_user\<lparr>balance := Fin 9900\<rparr>), Some (Suc (version demo_store)))"
    unfolding demo_bet_direct_12 [OF demo_getUser_alice] snd_conv kv_get_user_save_bets
    by (rule kv_get_user_saveUser)
  then have v: "snd (kv_get_user (?fb demo_store) (username demo_user))
             \<noteq> snd (kv_get_user demo_store (username demo_user))"
    by (simp add: demo_user_def) (simp add: demo_store_eq kv_get_user_def)
  have "api_2d_bet_conc (\<lambda>s. s) ?fb demo_env ''alice'' ''7'' (Fin 100) ''head'' demo_store
     = (Inl ConcurrencyConflict, ?fb demo_store)"
    by (rule bet_conflict [where fa = "\<lambda>s. s" and fb = ?fb,
          OF demo_getUser_alice valid_stake_100 demo_session demo_head_7 b v])
  moreover have "fst (api_2d_bet demo_env ''alice'' ''12'' (Fin 100) ''direct'' demo_store)
             = Inr (1, Fin 100, Fin 9900)"
    unfolding demo_bet_direct_12 [OF demo_getUser_alice] by simp
  ultimately show ?thesis by simp
qed

text \<open>
  C9. The program lists the results in descending key order, and the key of a result
  is (date, session name): for one date the morning result comes before the evening
  result, whichever was published last. After the morning and then the evening result
  of one day have been saved, \<open>getRecentResults 1\<close> returns the morning result alone and
  \<open>getRecentResults 10\<close> returns the morning result first.
\<close>

theorem recent_results_session_order:
  "getRecentResults 1
     (saveResult ''2025-06-01'' Evening ''45'' ''16:30''
        (saveResult ''2025-06-01'' Morning ''12'' ''12:01'' empty_store))
     = Some [\<lparr>r_date = ''2025-06-01'', r_time = ''12:01'', r_twod = ''12'', r_session = Morning\<rparr>]
   \<and> getRecentResults 10
     (saveResult ''2025-06-01'' Evening ''45'' ''16:30''
        (saveResult ''2025-06-01'' Morning ''12'' ''12:01'' empty_store))
     = Some [\<lparr>r_date = ''2025-06-01'', r_time = ''12:01'', r_twod = ''12'', r_session = Morning\<rparr>,
        \<lparr>r_date = ''2025-06-01'', r_time = ''16:30'', r_twod = ''45'', r_session = Evening\<rparr>]"
  by (simp add: getRecentResults_def saveResult_def empty_store_def session_name_def)

text \<open>
  C10. When the loop body of the settlement meets a pending bet of the session on the
  winning number whose owner has no account record, it writes the bet with status win,
  counts it, and leaves the table of accounts as it was. For the whole sweep: the bet is
  a win in the resulting store, it is among the bets the returned count counts, and
  every account ends with the balance it would have had without that bet.
\<close>

theorem win_without_account:
  assumes "b_status bet = Pending" and "b_session bet = sess" and "b_number bet = w"
    and "getUser s (b_username bet) = None"
  shows "settle_entry w sess m (k, bet) (s, c) = (kv_set_bet k (bet\<lparr>b_status := Win\<rparr>) s, Suc c)
         \<and> users (kv_set_bet k (bet\<lparr>b_status := Win\<rparr>) s) = users s
         \<and> (kv_ok (bets s) \<and> (k, bet) \<in> set (bets s) \<and> fst k = date \<longrightarrow>
              (k, bet\<lparr>b_status := Win\<rparr>) \<in> set (bets (snd (process2DWinnings date w sess m s)))
              \<and> fst (process2DWinnings date w sess m s)
                  = length (filter (is_winner w sess) (list_bets date s))
              \<and> (k, bet) \<in> set (filter (is_winner w sess) (list_bets date s))
              \<and> (\<forall>name. getUser (snd (process2DWinnings date w sess m s)) name =
                    map_option
                      (credited w sess m name
                         (filter (\<lambda>x. x \<noteq> (k, bet)) (list_bets date s)))
                      (getUser s name)))"
proof (intro conjI impI allI)
  show "settle_entry w sess m (k, bet) (s, c) = (kv_set_bet k (bet\<lparr>b_status := Win\<rparr>) s, Suc c)"
    by (rule settle_entry_orphan [OF assms])
  show "users (kv_set_bet k (bet\<lparr>b_status := Win\<rparr>) s) = users s"
    by (simp add: kv_set_bet_def commit_no_checks)
next
  assume h: "kv_ok (bets s) \<and> (k, bet) \<in> set (bets s) \<and> fst k = date"
  then have ok: "kv_ok (bets s)" and mem: "(k, bet) \<in> set (bets s)" and key: "fst k = date"
    by simp_all
  have "spec_resolve date w sess (k, bet) = (k, bet\<lparr>b_status := Win\<rparr>)"
    using assms(1-3) key by (simp add: spec_resolve_def)
  with mem show "(k, bet\<lparr>b_status := Win\<rparr>) \<in> set (bets (snd (process2DWinnings date w sess m s)))"
    unfolding bets_process2DWinnings [OF ok] by force
  show "fst (process2DWinnings date w sess m s)
          = length (filter (is_winner w sess) (list_bets date s))"
    by (rule count_process2DWinnings)
  show "(k, bet) \<in> set (filter (is_winner w sess) (list_bets date s))"
    using assms(1-3) mem key by (simp add: is_winner_def list_bets_def)
next
  fix name
  assume "kv_ok (bets s) \<and> (k, bet) \<in> set (bets s) \<and> fst k = date"
  show "getUser (snd (process2DWinnings date w sess m s)) name =
          map_option
            (credited w sess m name (filter (\<lambda>x. x \<noteq> (k, bet)) (list_bets date s)))
            (getUser s name)"
  proof (cases "getUser s name")
    case None
    then show ?thesis by (simp add: getUser_process2DWinnings)
  next
    case (Some v)
    with assms(4) have "b_username (snd (k, bet)) \<noteq> name" by auto
    then have "credited w sess m name (filter (\<lambda>x. x \<noteq> (k, bet)) (list_bets date s))
                 = credited w sess m name (list_bets date s)"
      by (intro ext credited_remove)
    then show ?thesis
      by (simp only: getUser_process2DWinnings)
  qed
qed

theorem win_without_account_witness:
  "getUser demo_orphan ''alice'' = None
   \<and> fst (process2DWinnings ''2025-06-01'' ''21'' Morning (Fin 80) demo_orphan) = 1
   \<and> users (snd (process2DWinnings ''2025-06-01'' ''21'' Morning (Fin 80) demo_orphan))
       = users demo_orphan
   \<and> ((''2025-06-01'', ''alice'', ''id-1''),
       \<lparr>b_id = ''id-1'', b_username = ''alice'', b_number = ''21'', b_amount = Fin 100,
         b_date = ''2025-06-01'', b_session = Morning, b_status = Win,
         b_timestamp = 1748750400001\<rparr>)
      \<in> set (bets (snd (process2DWinnings ''2025-06-01'' ''21'' Morning (Fin 80) demo_orphan)))"
proof -
  let ?bet = "\<lparr>b_id = ''id-1'', b_username = ''alice'', b_number = ''21'', b_amount = Fin 100,
                b_date = ''2025-06-01'', b_session = Morning, b_status = Pending,
                b_timestamp = 1748750400001\<rparr>"
  have g: "getUser demo_orphan (b_username ?bet) = None"
    by (simp add: demo_orphan_def getUser_def kv_get_user_def)
  have ok: "kv_ok (bets demo_orphan)"
    using kv_ok_demo_placed by (simp add: demo_orphan_def)
  have mem: "((''2025-06-01'', ''alice'', ''id-1''), ?bet) \<in> set (bets demo_orphan)"
    by (simp add: demo_orphan_def demo_placed_eq)
  from win_without_account [of ?bet Morning "''21''" demo_orphan "Fin 80"
      "(''2025-06-01'', ''alice'', ''id-1'')" 0 "''2025-06-01''", OF _ _ _ g] ok mem
  have "((''2025-06-01'', ''alice'', ''id-1''), ?bet\<lparr>b_status := Win\<rparr>)
      \<in> set (bets (snd (process2DWinnings ''2025-06-01'' ''21'' Morning (Fin 80) demo_orphan)))"
    by simp
  with g show ?thesis
    by (simp add: demo_orphan_settled) (simp add: demo_orphan_def)
qed

end
